theory Spec2Isabelle
  imports Complex_Main "HOL-Library.AList" "HOL-Library.Sublist"
begin

section \<open>Data model (mini\_motorways\_env.h)\<close>

datatype TileType = EMPTY | HOUSE | BUSINESS | ROAD | MOTORWAY | BRIDGE | ROUNDABOUT | TRAFFIC_LIGHT

datatype CarColor = RED | BLUE | GREEN | YELLOW | PURPLE | ORANGE

text \<open>\<^verbatim>\<open>struct Position { int x, y; }\<close>, compared by coordinates.\<close>

datatype Position = Position (px: int) (py: int)

text \<open>
  \<^verbatim>\<open>struct Car\<close>. The fields \<^verbatim>\<open>visual_x\<close>, \<^verbatim>\<open>visual_y\<close> and \<^verbatim>\<open>speed\<close> are
  single-precision values that only the renderer reads; no operation of the simulation
  core branches on them, and they are left out.
\<close>

record Car =
  car_position :: Position
  car_destination :: Position
  car_color :: CarColor
  car_path :: "Position list"
  stuck_time :: int
  completed :: bool

text \<open>The constructor \<^verbatim>\<open>Car(pos, dest, col)\<close>.\<close>

definition new_car :: "Position \<Rightarrow> Position \<Rightarrow> CarColor \<Rightarrow> Car" where
  "new_car p d col =
     \<lparr>car_position = p, car_destination = d, car_color = col, car_path = [],
      stuck_time = 0, completed = False\<rparr>"

record Building =
  b_position :: Position
  b_color :: CarColor
  b_type :: TileType
  cars_spawned :: int
  max_cars :: int

text \<open>The constructor \<^verbatim>\<open>Building(pos, col, t)\<close>.\<close>

definition new_building :: "Position \<Rightarrow> CarColor \<Rightarrow> TileType \<Rightarrow> Building" where
  "new_building p col t =
     \<lparr>b_position = p, b_color = col, b_type = t, cars_spawned = 0, max_cars = 5\<rparr>"

text \<open>The grid is a vector of rows, read as \<^verbatim>\<open>grid[y][x]\<close>.\<close>

type_synonym Grid = "TileType list list"

definition GRID_WIDTH :: int where "GRID_WIDTH = 20"
definition GRID_HEIGHT :: int where "GRID_HEIGHT = 20"
definition MAX_STEPS :: int where "MAX_STEPS = 1000"

text \<open>
  The random engine. A run of the program calls the engine through three distributions;
  the model keeps the number of draws made so far and two streams that say what the next
  draw returns: a raw value for the two integer distributions on \<open>[0, 19]\<close>, and the
  outcome of the comparison \<^verbatim>\<open>spawn_dist(rng) < 0.3f\<close> for the real one. Every theorem
  below holds for all streams.
\<close>

record Rng =
  int_draws :: "nat \<Rightarrow> nat"
  roll_draws :: "nat \<Rightarrow> bool"
  drawn :: nat

definition position_dist_x :: "Rng \<Rightarrow> int \<times> Rng" where
  "position_dist_x r = (int (int_draws r (drawn r) mod nat GRID_WIDTH), r\<lparr>drawn := Suc (drawn r)\<rparr>)"

definition position_dist_y :: "Rng \<Rightarrow> int \<times> Rng" where
  "position_dist_y r = (int (int_draws r (drawn r) mod nat GRID_HEIGHT), r\<lparr>drawn := Suc (drawn r)\<rparr>)"

text \<open>The test \<^verbatim>\<open>spawn_dist(rng) < 0.3f\<close>.\<close>

definition spawn_roll :: "Rng \<Rightarrow> bool \<times> Rng" where
  "spawn_roll r = (roll_draws r (drawn r), r\<lparr>drawn := Suc (drawn r)\<rparr>)"

text \<open>
  The resource ledger is an \<^verbatim>\<open>unordered_map<string, int>\<close>: an association list with
  distinct keys. \<^verbatim>\<open>operator[]\<close> inserts a missing key with value 0 before it reads or
  writes; \<^verbatim>\<open>at\<close> throws on a missing key.
\<close>

type_synonym Ledger = "(string \<times> int) list"

definition res_touch :: "string \<Rightarrow> Ledger \<Rightarrow> Ledger" where
  "res_touch k r = (case map_of r k of None \<Rightarrow> r @ [(k, 0)] | Some v \<Rightarrow> r)"

definition res_get :: "string \<Rightarrow> Ledger \<Rightarrow> int" where
  "res_get k r = (case map_of r k of None \<Rightarrow> 0 | Some v \<Rightarrow> v)"

definition res_set :: "string \<Rightarrow> int \<Rightarrow> Ledger \<Rightarrow> Ledger" where
  "res_set k v r = AList.update k v r"

definition res_at :: "string \<Rightarrow> Ledger \<Rightarrow> int option" where
  "res_at k r = map_of r k"

text \<open>
  The simulation state of \<^verbatim>\<open>class MiniMotorwaysEnvironment\<close>. The window, the renderer
  and the path finder object hold no simulation state.
\<close>

record Env =
  grid :: Grid
  cars :: "Car list"
  buildings :: "Building list"
  resources :: Ledger
  score :: int
  current_step :: int
  game_over :: bool
  congestion_penalty :: int
  rng :: Rng

section \<open>Path finder\<close>

text \<open>\<^verbatim>\<open>struct Node\<close>; \<^verbatim>\<open>parent\<close> of the start node is the default position (0, 0).\<close>

datatype Node = Node (node_pos: Position) (g_cost: int) (h_cost: int) (node_parent: Position)

definition f_cost :: "Node \<Rightarrow> int" where
  "f_cost n = g_cost n + h_cost n"

definition calculate_distance :: "Position \<Rightarrow> Position \<Rightarrow> int" where
  "calculate_distance a b = \<bar>px a - px b\<bar> + \<bar>py a - py b\<bar>"

text \<open>The passability test written out in \<^verbatim>\<open>find_path\<close> and in \<^verbatim>\<open>can_move_to\<close>.\<close>

definition passable :: "TileType \<Rightarrow> bool" where
  "passable tile \<longleftrightarrow>
     tile = ROAD \<or> tile = MOTORWAY \<or> tile = BRIDGE \<or> tile = ROUNDABOUT \<or>
     tile = TRAFFIC_LIGHT \<or> tile = HOUSE \<or> tile = BUSINESS"

text \<open>
  \<^verbatim>\<open>reconstruct_path\<close>: the loop follows \<^verbatim>\<open>came_from\<close> from the goal until it meets the
  start or a position without an entry. On a cyclic map it does not return.
\<close>

partial_function (option) reconstruct_loop ::
  "(Position \<rightharpoonup> Position) \<Rightarrow> Position \<Rightarrow> Position \<Rightarrow> Position list \<Rightarrow> Position list option"
where
  "reconstruct_loop cf start current acc =
     (if current \<noteq> start then
        (case cf current of
           None \<Rightarrow> Some (acc @ [current])
         | Some p \<Rightarrow> reconstruct_loop cf start p (acc @ [current]))
      else Some acc)"

declare reconstruct_loop.simps [code]

definition reconstruct_path ::
  "(Position \<rightharpoonup> Position) \<Rightarrow> Position \<Rightarrow> Position \<Rightarrow> Position list option" where
  "reconstruct_path cf start goal =
     (case reconstruct_loop cf start goal [] of
        None \<Rightarrow> None
      | Some acc \<Rightarrow> Some (rev (acc @ [start])))"

text \<open>The four local containers of \<^verbatim>\<open>find_path\<close>.\<close>

record astar_state =
  open_set :: "Node list"
  closed_set :: "Position set"
  came_from :: "Position \<rightharpoonup> Position"
  g_score :: "Position \<rightharpoonup> int"

text \<open>
  \<^verbatim>\<open>std::priority_queue\<close> with \<^verbatim>\<open>NodeComparator\<close> hands out an entry of least
  \<^verbatim>\<open>f_cost\<close>; which one among several of the same cost depends on the library's heap.
  The open set is kept as the list of its entries in insertion order, and the choice
  among the entries of least cost is left to a parameter \<open>tie\<close>, asked at every
  iteration \<open>k\<close> of the search loop. Every theorem on the search holds for all \<open>tie\<close>.
\<close>

fun min_f_cost :: "Node list \<Rightarrow> int" where
  "min_f_cost [] = 0"
| "min_f_cost [n] = f_cost n"
| "min_f_cost (n # ns) = min (f_cost n) (min_f_cost ns)"

definition top_index :: "(nat \<Rightarrow> nat) \<Rightarrow> nat \<Rightarrow> Node list \<Rightarrow> nat" where
  "top_index tie k ns =
     (let cands = filter (\<lambda>i. f_cost (ns ! i) = min_f_cost ns) [0..<length ns]
      in cands ! (tie k mod length cands))"

definition directions :: "Position list" where
  "directions = [Position 0 1, Position 1 0, Position 0 (- 1), Position (- 1) 0]"

text \<open>The body of the loop over \<^verbatim>\<open>directions\<close>, for the expanded position \<open>cur\<close>.\<close>

definition visit_neighbor :: "Grid \<Rightarrow> Position \<Rightarrow> Position \<Rightarrow> Position \<Rightarrow> astar_state \<Rightarrow> astar_state" where
  "visit_neighbor g goal cur dir st =
     (let neighbor = Position (px cur + px dir) (py cur + py dir) in
      if px neighbor < 0 \<or> px neighbor \<ge> int (length (g ! 0)) \<or>
         py neighbor < 0 \<or> py neighbor \<ge> int (length g) then st
      else if neighbor \<in> closed_set st then st
      else if \<not> passable (g ! nat (py neighbor) ! nat (px neighbor)) then st
      else
        let gs = (case g_score st cur of None \<Rightarrow> (g_score st)(cur \<mapsto> 0) | Some v \<Rightarrow> g_score st);
            tentative_g = (case gs cur of None \<Rightarrow> 0 | Some v \<Rightarrow> v) + 1
        in if (case gs neighbor of None \<Rightarrow> True | Some v \<Rightarrow> tentative_g < v) then
             st\<lparr>came_from := (came_from st)(neighbor \<mapsto> cur),
                g_score := gs(neighbor \<mapsto> tentative_g),
                open_set := open_set st @
                  [Node neighbor tentative_g (calculate_distance neighbor goal) cur]\<rparr>
           else st\<lparr>g_score := gs\<rparr>)"

text \<open>One iteration of the \<^verbatim>\<open>while\<close> loop that does not return: close \<open>cur\<close>, visit its neighbours.\<close>

definition expand :: "Grid \<Rightarrow> Position \<Rightarrow> Position \<Rightarrow> astar_state \<Rightarrow> astar_state" where
  "expand g goal cur st =
     fold (visit_neighbor g goal cur) directions (st\<lparr>closed_set := insert cur (closed_set st)\<rparr>)"

definition remove_nth :: "nat \<Rightarrow> 'a list \<Rightarrow> 'a list" where
  "remove_nth i xs = take i xs @ drop (Suc i) xs"

partial_function (option) astar_loop ::
  "(nat \<Rightarrow> nat) \<Rightarrow> Grid \<Rightarrow> Position \<Rightarrow> Position \<Rightarrow> nat \<Rightarrow> astar_state \<Rightarrow> Position list option"
where
  "astar_loop tie g start goal k st =
     (if open_set st = [] then Some []
      else
        let i = top_index tie k (open_set st);
            current = open_set st ! i;
            st1 = st\<lparr>open_set := remove_nth i (open_set st)\<rparr>
        in if node_pos current = goal then reconstruct_path (came_from st1) start goal
           else astar_loop tie g start goal (Suc k) (expand g goal (node_pos current) st1))"

declare astar_loop.simps [code]

text \<open>\<^verbatim>\<open>PathFinder::find_path\<close>. \<open>None\<close> stands for a call that does not return.\<close>

definition find_path :: "(nat \<Rightarrow> nat) \<Rightarrow> Position \<Rightarrow> Position \<Rightarrow> Grid \<Rightarrow> Position list option" where
  "find_path tie start goal g =
     astar_loop tie g start goal 0
       \<lparr>open_set = [Node start 0 (calculate_distance start goal) (Position 0 0)],
        closed_set = {},
        came_from = Map.empty,
        g_score = [start \<mapsto> 0]\<rparr>"

section \<open>Environment\<close>

text \<open>
  Calls that may not return normally (the path search may in principle not terminate,
  \<^verbatim>\<open>at\<close> throws on a missing key) have an \<open>option\<close> result; \<open>None\<close> stands for
  "does not return a value". The theorems below that say what a call returns prove that
  it is \<open>Some\<close> value.
\<close>

definition initial_resources :: "Ledger \<Rightarrow> Ledger" where
  "initial_resources r =
     res_set ''upgrades'' 1 (res_set ''traffic_lights'' 2 (res_set ''roundabouts'' 1
       (res_set ''bridges'' 2 (res_set ''motorways'' 3 (res_set ''roads'' 20 r)))))"

definition empty_grid :: Grid where
  "empty_grid = replicate (nat GRID_HEIGHT) (replicate (nat GRID_WIDTH) EMPTY)"

text \<open>The constructor; \<open>r\<close> is the freshly seeded engine.\<close>

definition new_env :: "Rng \<Rightarrow> Env" where
  "new_env r =
     \<lparr>grid = empty_grid, cars = [], buildings = [], resources = initial_resources [],
      score = 0, current_step = 0, game_over = False, congestion_penalty = 0, rng = r\<rparr>"

definition is_valid_position :: "Position \<Rightarrow> bool" where
  "is_valid_position p \<longleftrightarrow> px p \<ge> 0 \<and> px p < GRID_WIDTH \<and> py p \<ge> 0 \<and> py p < GRID_HEIGHT"

definition tile_at :: "Grid \<Rightarrow> int \<Rightarrow> int \<Rightarrow> TileType" where
  "tile_at g x y = g ! nat y ! nat x"

definition set_tile :: "Grid \<Rightarrow> int \<Rightarrow> int \<Rightarrow> TileType \<Rightarrow> Grid" where
  "set_tile g x y t = g[nat y := (g ! nat y)[nat x := t]]"

definition can_move_to :: "Grid \<Rightarrow> Position \<Rightarrow> bool" where
  "can_move_to g p \<longleftrightarrow>
     (if \<not> is_valid_position p then False
      else let tile = tile_at g (px p) (py p) in
        tile = ROAD \<or> tile = MOTORWAY \<or> tile = BRIDGE \<or> tile = ROUNDABOUT \<or>
        tile = TRAFFIC_LIGHT \<or> tile = HOUSE \<or> tile = BUSINESS)"

text \<open>
  The four placements of \<^verbatim>\<open>execute_action\<close> on an empty cell have the same shape:
  \<^verbatim>\<open>if (resources[k] > 0 && grid[y][x] == from) { grid[y][x] = to; resources[k]--; return true; }\<close>.
  The test indexes the ledger first, so a missing key is inserted even when the test fails.
\<close>

definition place :: "string \<Rightarrow> TileType \<Rightarrow> TileType \<Rightarrow> Env \<Rightarrow> int \<Rightarrow> int \<Rightarrow> bool \<times> Env" where
  "place k from to s x y =
     (let r = res_touch k (resources s) in
      if res_get k r > 0 \<and> tile_at (grid s) x y = from then
        (True, s\<lparr>grid := set_tile (grid s) x y to, resources := res_set k (res_get k r - 1) r\<rparr>)
      else (False, s\<lparr>resources := r\<rparr>))"

definition remove_infrastructure :: "Env \<Rightarrow> int \<Rightarrow> int \<Rightarrow> bool \<times> Env" where
  "remove_infrastructure s x y =
     (if tile_at (grid s) x y = ROAD \<or> tile_at (grid s) x y = MOTORWAY then
        let removed = tile_at (grid s) x y;
            s1 = s\<lparr>grid := set_tile (grid s) x y EMPTY\<rparr>;
            s2 = (if removed = ROAD then
                    s1\<lparr>resources := res_set ''roads'' (res_get ''roads'' (resources s1) + 1) (resources s1)\<rparr>
                  else if removed = MOTORWAY then
                    s1\<lparr>resources := res_set ''motorways'' (res_get ''motorways'' (resources s1) + 1) (resources s1)\<rparr>
                  else s1)
        in (True, s2)
      else (False, s))"

definition execute_action :: "Env \<Rightarrow> int \<Rightarrow> int \<Rightarrow> int \<Rightarrow> bool \<times> Env" where
  "execute_action s action_type x y =
     (if \<not> is_valid_position (Position x y) then (False, s)
      else if action_type = 0 then place ''roads'' EMPTY ROAD s x y
      else if action_type = 1 then place ''motorways'' EMPTY MOTORWAY s x y
      else if action_type = 2 then place ''bridges'' EMPTY BRIDGE s x y
      else if action_type = 3 then place ''roundabouts'' EMPTY ROUNDABOUT s x y
      else if action_type = 4 then place ''traffic_lights'' ROAD TRAFFIC_LIGHT s x y
      else if action_type = 5 then remove_infrastructure s x y
      else (False, s))"

text \<open>
  The body of the loop of \<^verbatim>\<open>simulate_traffic\<close> for one car; it also updates the score
  and the congestion penalty, passed as a pair. \<open>pq\<close> gives, for every search, the order
  in which the priority queue hands out entries of equal cost.
\<close>

type_synonym PQ = "Position \<Rightarrow> Position \<Rightarrow> Grid \<Rightarrow> nat \<Rightarrow> nat"

definition traffic_car :: "PQ \<Rightarrow> Grid \<Rightarrow> Car \<Rightarrow> int \<times> int \<Rightarrow> (Car \<times> int \<times> int) option" where
  "traffic_car pq g c acc =
     (if completed c then Some (c, acc)
      else
        case (if car_path c = []
              then find_path (pq (car_position c) (car_destination c) g)
                     (car_position c) (car_destination c) g
              else Some (car_path c)) of
          None \<Rightarrow> None
        | Some p \<Rightarrow>
            let c1 = c\<lparr>car_path := p\<rparr> in
            if car_path c1 \<noteq> [] \<and> length (car_path c1) > 1 then
              let next_pos = car_path c1 ! 1 in
              if can_move_to g next_pos then
                let c2 = c1\<lparr>car_position := next_pos, car_path := tl (car_path c1), stuck_time := 0\<rparr>
                in if car_position c2 = car_destination c2
                   then Some (c2\<lparr>completed := True\<rparr>, fst acc + 1, snd acc)
                   else Some (c2, acc)
              else
                let c2 = c1\<lparr>stuck_time := stuck_time c1 + 1\<rparr>
                in if stuck_time c2 > 10 then Some (c2, fst acc, snd acc + 1)
                   else Some (c2, acc)
            else Some (c1, acc))"

fun traffic_loop :: "PQ \<Rightarrow> Grid \<Rightarrow> Car list \<Rightarrow> int \<times> int \<Rightarrow> (Car list \<times> int \<times> int) option" where
  "traffic_loop pq g [] acc = Some ([], acc)"
| "traffic_loop pq g (c # cs) acc =
     (case traffic_car pq g c acc of
        None \<Rightarrow> None
      | Some (c', acc') \<Rightarrow>
          (case traffic_loop pq g cs acc' of
             None \<Rightarrow> None
           | Some (cs', acc'') \<Rightarrow> Some (c' # cs', acc'')))"

definition simulate_traffic :: "PQ \<Rightarrow> Env \<Rightarrow> Env option" where
  "simulate_traffic pq s =
     (case traffic_loop pq (grid s) (cars s) (score s, congestion_penalty s) of
        None \<Rightarrow> None
      | Some (cs, sc, cp) \<Rightarrow>
          Some (s\<lparr>cars := filter (\<lambda>c. \<not> completed c) cs, score := sc, congestion_penalty := cp\<rparr>))"

text \<open>The body of the outer loop of \<^verbatim>\<open>spawn_cars\<close>, for the building at index \<open>i\<close>.\<close>

definition spawn_from :: "nat \<Rightarrow> Env \<Rightarrow> Env" where
  "spawn_from i s =
     (let building = buildings s ! i in
      if b_type building = HOUSE \<and> cars_spawned building < max_cars building then
        let (roll, r) = spawn_roll (rng s);
            s1 = s\<lparr>rng := r\<rparr>
        in if roll then
             (case find (\<lambda>business. b_type business = BUSINESS \<and> b_color business = b_color building)
                     (buildings s1) of
                None \<Rightarrow> s1
              | Some business \<Rightarrow>
                  s1\<lparr>cars := cars s1 @ [new_car (b_position building) (b_position business) (b_color building)],
                     buildings := (buildings s1)[i := building\<lparr>cars_spawned := cars_spawned building + 1\<rparr>]\<rparr>)
           else s1
      else s)"

definition spawn_cars :: "Env \<Rightarrow> Env" where
  "spawn_cars s =
     (if current_step s mod 5 = 0 then fold spawn_from [0..<length (buildings s)] s else s)"

definition check_game_over :: "Env \<Rightarrow> bool" where
  "check_game_over s =
     (let stuck_cars = int (length (filter (\<lambda>c. stuck_time c > 20) (cars s))) in
      if stuck_cars > 10 then True
      else
        let total_resources = sum_list (map snd (resources s)) in
        if total_resources = 0 \<and> length (cars s) > 15 then True
        else if current_step s \<ge> MAX_STEPS then True
        else False)"

fun find_empty_attempts :: "nat \<Rightarrow> Grid \<Rightarrow> Rng \<Rightarrow> Position \<times> Rng" where
  "find_empty_attempts 0 g r = (Position (- 1) (- 1), r)"
| "find_empty_attempts (Suc n) g r =
     (let (x, r1) = position_dist_x r;
          (y, r2) = position_dist_y r1
      in if tile_at g x y = EMPTY then (Position x y, r2)
         else find_empty_attempts n g r2)"

definition find_empty_position :: "Env \<Rightarrow> Position \<times> Env" where
  "find_empty_position s =
     (let (p, r) = find_empty_attempts 100 (grid s) (rng s) in (p, s\<lparr>rng := r\<rparr>))"

text \<open>The body shared by the two for-statements of \<^verbatim>\<open>spawn_initial_buildings\<close>.\<close>

definition spawn_building :: "TileType \<Rightarrow> CarColor \<Rightarrow> Env \<Rightarrow> Env" where
  "spawn_building t col s =
     (let (p, s1) = find_empty_position s in
      if px p \<noteq> - 1 then
        s1\<lparr>buildings := buildings s1 @ [new_building p col t],
           grid := set_tile (grid s1) (px p) (py p) t\<rparr>
      else s1)"

definition spawn_initial_buildings :: "Env \<Rightarrow> Env" where
  "spawn_initial_buildings s =
     (let colors = [RED, BLUE, GREEN];
          s1 = fold (\<lambda>i. spawn_building HOUSE (colors ! i)) [0..<3] s
      in fold (\<lambda>i. spawn_building BUSINESS (colors ! i)) [0..<2] s1)"

fun tile_ordinal :: "TileType \<Rightarrow> int" where
  "tile_ordinal EMPTY = 0"
| "tile_ordinal HOUSE = 1"
| "tile_ordinal BUSINESS = 2"
| "tile_ordinal ROAD = 3"
| "tile_ordinal MOTORWAY = 4"
| "tile_ordinal BRIDGE = 5"
| "tile_ordinal ROUNDABOUT = 6"
| "tile_ordinal TRAFFIC_LIGHT = 7"

text \<open>
  \<^verbatim>\<open>get_observation\<close>. The entries are single-precision quotients in the program; the
  model writes the exact quotient. The claims on the observation are on its length and
  on the state it is computed from, which do not depend on rounding.
\<close>

definition car_density :: "Car list \<Rightarrow> int \<Rightarrow> int \<Rightarrow> int" where
  "car_density cs x y =
     int (length (filter (\<lambda>c. px (car_position c) \<ge> 0 \<and> px (car_position c) < GRID_WIDTH \<and>
                              py (car_position c) \<ge> 0 \<and> py (car_position c) < GRID_HEIGHT \<and>
                              car_position c = Position x y) cs))"

definition cells :: "(int \<times> int) list" where
  "cells = concat (map (\<lambda>y. map (\<lambda>x. (x, y)) [0..<nat GRID_WIDTH]) [0..<nat GRID_HEIGHT])"

definition get_observation :: "Env \<Rightarrow> real list option" where
  "get_observation s =
     (let grid_layer = map (\<lambda>(x, y). real_of_int (tile_ordinal (tile_at (grid s) x y)) / 7) cells;
          density_layer = map (\<lambda>(x, y). min (real_of_int (car_density (cars s) x y) / 5) 1) cells
      in case (res_at ''roads'' (resources s), res_at ''motorways'' (resources s),
               res_at ''bridges'' (resources s), res_at ''roundabouts'' (resources s),
               res_at ''traffic_lights'' (resources s), res_at ''upgrades'' (resources s)) of
           (Some ro, Some mo, Some br, Some rb, Some li, Some up) \<Rightarrow>
             Some (grid_layer @ density_layer @
                   [real_of_int ro / 20, real_of_int mo / 3, real_of_int br / 2,
                    real_of_int rb / 1, real_of_int li / 2, real_of_int up / 1] @
                   [real_of_int (score s) / 100, real (length (cars s)) / 50,
                    real_of_int (congestion_penalty s) / 100,
                    real_of_int (current_step s) / real_of_int MAX_STEPS])
         | _ \<Rightarrow> None)"

definition reset :: "Env \<Rightarrow> (real list \<times> Env) option" where
  "reset s =
     (let s1 = s\<lparr>grid := empty_grid, cars := [], buildings := [],
                 score := 0, current_step := 0, game_over := False, congestion_penalty := 0\<rparr>;
          s2 = s1\<lparr>resources := initial_resources (resources s1)\<rparr>;
          s3 = spawn_initial_buildings s2
      in map_option (\<lambda>obs. (obs, s3)) (get_observation s3))"

definition step :: "PQ \<Rightarrow> Env \<Rightarrow> int list \<Rightarrow> (real list \<times> Env) option" where
  "step pq s action =
     (if game_over s \<or> length action \<noteq> 3 then map_option (\<lambda>obs. (obs, s)) (get_observation s)
      else
        let s1 = s\<lparr>current_step := current_step s + 1\<rparr>;
            s2 = (if action ! 0 < 6
                  then snd (execute_action s1 (action ! 0) (action ! 1) (action ! 2))
                  else s1)
        in case simulate_traffic pq s2 of
             None \<Rightarrow> None
           | Some s3 \<Rightarrow>
               let s4 = spawn_cars s3;
                   s5 = s4\<lparr>game_over := check_game_over s4\<rparr>
               in map_option (\<lambda>obs. (obs, s5)) (get_observation s5))"

text \<open>\<^verbatim>\<open>is_done\<close>, with the window's close request as an input.\<close>

definition is_done :: "Env \<Rightarrow> bool \<Rightarrow> bool" where
  "is_done s should_close \<longleftrightarrow> game_over s \<or> should_close"

section \<open>Specification of the path finder\<close>

text \<open>
  The cells the search may enter: inside the grid, as \<^verbatim>\<open>find_path\<close> tests it against
  \<^verbatim>\<open>grid[0].size()\<close> and \<^verbatim>\<open>grid.size()\<close>, and with a passable tile.
\<close>

definition in_bounds :: "Grid \<Rightarrow> Position \<Rightarrow> bool" where
  "in_bounds g n \<longleftrightarrow> 0 \<le> px n \<and> px n < int (length (g ! 0)) \<and> 0 \<le> py n \<and> py n < int (length g)"

definition enterable :: "Grid \<Rightarrow> Position \<Rightarrow> bool" where
  "enterable g n \<longleftrightarrow> in_bounds g n \<and> passable (g ! nat (py n) ! nat (px n))"

definition adjacent :: "Position \<Rightarrow> Position \<Rightarrow> bool" where
  "adjacent a b \<longleftrightarrow> \<bar>px a - px b\<bar> + \<bar>py a - py b\<bar> = 1"

definition shift :: "Position \<Rightarrow> Position \<Rightarrow> Position" where
  "shift a d = Position (px a + px d) (py a + py d)"

text \<open>\<open>reach g a k b\<close>: \<open>b\<close> is reached from \<open>a\<close> by \<open>k\<close> moves, each to a 4-adjacent enterable cell.\<close>

inductive reach :: "Grid \<Rightarrow> Position \<Rightarrow> nat \<Rightarrow> Position \<Rightarrow> bool" for g a where
  reach_here: "reach g a 0 a"
| reach_move: "reach g a k b \<Longrightarrow> adjacent b c \<Longrightarrow> enterable g c \<Longrightarrow> reach g a (Suc k) c"

fun is_walk :: "Grid \<Rightarrow> Position list \<Rightarrow> bool" where
  "is_walk g [] = False"
| "is_walk g [a] = True"
| "is_walk g (a # b # r) = (adjacent a b \<and> enterable g b \<and> is_walk g (b # r))"

text \<open>
  The invariant of the search loop. \<open>X\<close> holds the pairs (expanded position, neighbour)
  that the loop over the directions has not visited yet; it is empty between iterations.
\<close>

definition inv_open :: "Grid \<Rightarrow> Position \<Rightarrow> Position \<Rightarrow> astar_state \<Rightarrow> bool" where
  "inv_open g start goal st \<longleftrightarrow>
     (start \<in> closed_set st \<or> (\<forall>e \<in> set (open_set st). node_pos e = start)) \<and>
     (\<forall>e \<in> set (open_set st).
        (in_bounds g (node_pos e) \<or> node_pos e = start) \<and>
        h_cost e = calculate_distance (node_pos e) goal \<and>
        (\<exists>v. g_score st (node_pos e) = Some v \<and> v \<le> g_cost e))"

definition inv_closed :: "Grid \<Rightarrow> Position \<Rightarrow> Position \<Rightarrow> astar_state \<Rightarrow> bool" where
  "inv_closed g start goal st \<longleftrightarrow>
     goal \<notin> closed_set st \<and>
     (\<forall>u \<in> closed_set st. (in_bounds g u \<or> u = start) \<and> g_score st u \<noteq> None)"

definition inv_tree :: "Grid \<Rightarrow> Position \<Rightarrow> astar_state \<Rightarrow> bool" where
  "inv_tree g start st \<longleftrightarrow>
     g_score st start = Some 0 \<and>
     (\<forall>n v. g_score st n = Some v \<longrightarrow>
        0 \<le> v \<and>
        (n \<noteq> start \<longrightarrow>
           (\<exists>p w. came_from st n = Some p \<and> p \<in> closed_set st \<and> adjacent p n \<and>
                  enterable g n \<and> g_score st p = Some w \<and> v = w + 1)))"

definition inv_relaxed :: "Grid \<Rightarrow> (Position \<times> Position) set \<Rightarrow> astar_state \<Rightarrow> bool" where
  "inv_relaxed g X st \<longleftrightarrow>
     (\<forall>u \<in> closed_set st. \<forall>n.
        adjacent u n \<and> enterable g n \<and> n \<notin> closed_set st \<and> (u, n) \<notin> X \<longrightarrow>
        (\<exists>v w. g_score st u = Some v \<and> g_score st n = Some w \<and> w \<le> v + 1))"

definition inv_frontier :: "astar_state \<Rightarrow> bool" where
  "inv_frontier st \<longleftrightarrow>
     (\<forall>n v. g_score st n = Some v \<and> n \<notin> closed_set st \<longrightarrow>
        (\<exists>e \<in> set (open_set st). node_pos e = n \<and> g_cost e = v))"

definition inv_optimal :: "Grid \<Rightarrow> Position \<Rightarrow> astar_state \<Rightarrow> bool" where
  "inv_optimal g start st \<longleftrightarrow>
     (\<forall>u \<in> closed_set st. \<forall>k. reach g start k u \<longrightarrow>
        (\<exists>v. g_score st u = Some v \<and> v \<le> int k))"

definition astar_inv ::
  "Grid \<Rightarrow> Position \<Rightarrow> Position \<Rightarrow> (Position \<times> Position) set \<Rightarrow> astar_state \<Rightarrow> bool" where
  "astar_inv g start goal X st \<longleftrightarrow>
     inv_open g start goal st \<and> inv_closed g start goal st \<and> inv_tree g start st \<and>
     inv_relaxed g X st \<and> inv_frontier st \<and> inv_optimal g start st"

text \<open>The state after \<^verbatim>\<open>find_path\<close> has recorded a better score for \<open>n\<close>.\<close>

definition relax_to :: "astar_state \<Rightarrow> Position \<Rightarrow> Position \<Rightarrow> int \<Rightarrow> Position \<Rightarrow> astar_state" where
  "relax_to st n cur tg goal =
     st\<lparr>came_from := (came_from st)(n \<mapsto> cur),
        g_score := (g_score st)(n \<mapsto> tg),
        open_set := open_set st @ [Node n tg (calculate_distance n goal) cur]\<rparr>"

text \<open>The order in which the loop terminates: fewer positions left to close, then fewer entries.\<close>

definition region :: "Grid \<Rightarrow> Position \<Rightarrow> Position set" where
  "region g start = insert start {n. in_bounds g n}"

definition search_order :: "Grid \<Rightarrow> Position \<Rightarrow> (astar_state \<times> astar_state) set" where
  "search_order g start =
     inv_image (less_than <*lex*> less_than)
       (\<lambda>st. (card (region g start - closed_set st), length (open_set st)))"

text \<open>
  \<open>connects g start goal q\<close>: \<open>q\<close> is a sequence of passable cells of the grid from \<open>start\<close> to
  \<open>goal\<close> in which consecutive cells are 4-adjacent. On a rectangular grid every read of
  \<^verbatim>\<open>grid[y][x]\<close> by the search is in range.
\<close>

fun steps_adjacent :: "Position list \<Rightarrow> bool" where
  "steps_adjacent (a # b # r) = (adjacent a b \<and> steps_adjacent (b # r))"
| "steps_adjacent _ = True"

definition rectangular :: "Grid \<Rightarrow> bool" where
  "rectangular g \<longleftrightarrow> list_all (\<lambda>row. length row = length (g ! 0)) g"

definition connects :: "Grid \<Rightarrow> Position \<Rightarrow> Position \<Rightarrow> Position list \<Rightarrow> bool" where
  "connects g start goal q \<longleftrightarrow>
     q \<noteq> [] \<and> hd q = start \<and> last q = goal \<and> list_all (enterable g) q \<and> steps_adjacent q"

section \<open>Specification of the environment\<close>

text \<open>
  The six keys that the constructor and \<^verbatim>\<open>reset\<close> write into the ledger. No other key is
  ever used and no entry is erased, so every state the program reaches holds exactly these
  entries (\<open>ledger_ok\<close>), in the order of their first insertion.
\<close>

definition resource_keys :: "string list" where
  "resource_keys = [''roads'', ''motorways'', ''bridges'', ''roundabouts'', ''traffic_lights'', ''upgrades'']"

definition ledger_ok :: "Ledger \<Rightarrow> bool" where
  "ledger_ok r \<longleftrightarrow> map fst r = resource_keys"

text \<open>The grid of the 20 by 20 configuration.\<close>

definition grid_ok :: "Grid \<Rightarrow> bool" where
  "grid_ok g \<longleftrightarrow> length g = nat GRID_HEIGHT \<and> list_all (\<lambda>row. length row = nat GRID_WIDTH) g"

text \<open>
  The buildings that \<^verbatim>\<open>spawn_initial_buildings\<close> tries to place, in the order of its
  attempts, each with its kind and colour.
\<close>

definition kind_color :: "Building \<Rightarrow> TileType \<times> CarColor" where
  "kind_color b = (b_type b, b_color b)"

definition initial_buildings :: "(TileType \<times> CarColor) list" where
  "initial_buildings = [(HOUSE, RED), (HOUSE, BLUE), (HOUSE, GREEN), (BUSINESS, RED), (BUSINESS, BLUE)]"

text \<open>
  What holds of the vehicles and buildings of every reached state: a vehicle whose route
  has at most one waypoint has never been stuck, vehicles are red or blue, businesses are
  red or blue, and a green house has spawned nothing.
\<close>

definition car_ok :: "Car \<Rightarrow> bool" where
  "car_ok c \<longleftrightarrow> (length (car_path c) \<le> 1 \<longrightarrow> stuck_time c = 0) \<and> (car_color c = RED \<or> car_color c = BLUE)"

definition building_ok :: "Building \<Rightarrow> bool" where
  "building_ok b \<longleftrightarrow>
     (b_type b = BUSINESS \<longrightarrow> b_color b = RED \<or> b_color b = BLUE) \<and>
     (b_type b = HOUSE \<and> b_color b = GREEN \<longrightarrow> cars_spawned b = 0)"

definition action_inv :: "Env \<Rightarrow> bool" where
  "action_inv s \<longleftrightarrow> grid_ok (grid s) \<and> ledger_ok (resources s) \<and>
     list_all (\<lambda>k. 0 \<le> res_get k (resources s)) resource_keys"

definition env_inv :: "Env \<Rightarrow> bool" where
  "env_inv s \<longleftrightarrow>
     grid_ok (grid s) \<and> ledger_ok (resources s) \<and>
     list_all (\<lambda>k. 0 \<le> res_get k (resources s)) resource_keys \<and>
     list_all car_ok (cars s) \<and> list_all building_ok (buildings s) \<and>
     subseq (map kind_color (buildings s)) initial_buildings"

text \<open>
  The states of an environment object: the constructed one, and those that calls of the
  public operations \<^verbatim>\<open>reset\<close>, \<^verbatim>\<open>step\<close>, \<^verbatim>\<open>execute_action\<close>, \<^verbatim>\<open>simulate_traffic\<close> and
  \<^verbatim>\<open>spawn_cars\<close> lead to, in any order and with any arguments.
\<close>

inductive reachable :: "PQ \<Rightarrow> Env \<Rightarrow> bool" for pq where
  reach_new: "reachable pq (new_env r)"
| reach_reset: "reachable pq s \<Longrightarrow> reset s = Some (obs, s') \<Longrightarrow> reachable pq s'"
| reach_step: "reachable pq s \<Longrightarrow> step pq s a = Some (obs, s') \<Longrightarrow> reachable pq s'"
| reach_action: "reachable pq s \<Longrightarrow> execute_action s t x y = (b, s') \<Longrightarrow> reachable pq s'"
| reach_traffic: "reachable pq s \<Longrightarrow> simulate_traffic pq s = Some s' \<Longrightarrow> reachable pq s'"
| reach_spawn: "reachable pq s \<Longrightarrow> reachable pq (spawn_cars s)"

text \<open>What \<^verbatim>\<open>spawn_cars\<close> and \<^verbatim>\<open>spawn_initial_buildings\<close> leave unchanged.\<close>

definition spawn_frame :: "Env \<Rightarrow> Env \<Rightarrow> bool" where
  "spawn_frame s s' \<longleftrightarrow>
     grid s' = grid s \<and> resources s' = resources s \<and> score s' = score s \<and>
     current_step s' = current_step s \<and> game_over s' = game_over s \<and>
     congestion_penalty s' = congestion_penalty s \<and>
     map kind_color (buildings s') = map kind_color (buildings s) \<and>
     (list_all car_ok (cars s) \<and> list_all building_ok (buildings s) \<longrightarrow>
      list_all car_ok (cars s') \<and> list_all building_ok (buildings s'))"

definition build_frame :: "Env \<Rightarrow> Env \<Rightarrow> bool" where
  "build_frame s s' \<longleftrightarrow>
     resources s' = resources s \<and> cars s' = cars s \<and> score s' = score s \<and>
     current_step s' = current_step s \<and> game_over s' = game_over s \<and>
     congestion_penalty s' = congestion_penalty s \<and>
     (grid_ok (grid s) \<longrightarrow> grid_ok (grid s'))"

text \<open>
  The termination condition in the words of the specification: more than 10 active
  vehicles stuck for more than 20 steps, or no resource left and more than 15 active
  vehicles, or the step counter at the horizon of 1000.
\<close>

definition terminal_condition :: "Env \<Rightarrow> bool" where
  "terminal_condition s \<longleftrightarrow>
     10 < length (filter (\<lambda>c. 20 < stuck_time c) (cars s)) \<or>
     (res_get ''roads'' (resources s) + res_get ''motorways'' (resources s) +
      res_get ''bridges'' (resources s) + res_get ''roundabouts'' (resources s) +
      res_get ''traffic_lights'' (resources s) + res_get ''upgrades'' (resources s) = 0 \<and>
      15 < length (cars s)) \<or>
     1000 \<le> current_step s"

text \<open>
  The phases of \<^verbatim>\<open>step\<close> as state transformers: the counter and the action
  (\<open>after_action\<close>), then the traffic, then spawning and the termination test
  (\<open>close_step\<close>). \<open>reset_state\<close> is the state that \<^verbatim>\<open>reset\<close> leaves.
\<close>

definition after_action :: "Env \<Rightarrow> int list \<Rightarrow> Env" where
  "after_action s a =
     (if a ! 0 < 6
      then snd (execute_action (s\<lparr>current_step := current_step s + 1\<rparr>) (a ! 0) (a ! 1) (a ! 2))
      else s\<lparr>current_step := current_step s + 1\<rparr>)"

definition close_step :: "Env \<Rightarrow> Env" where
  "close_step s = (spawn_cars s)\<lparr>game_over := check_game_over (spawn_cars s)\<rparr>"

definition reset_state :: "Env \<Rightarrow> Env" where
  "reset_state s =
     spawn_initial_buildings
       (s\<lparr>grid := empty_grid, cars := [], buildings := [], score := 0, current_step := 0,
          game_over := False, congestion_penalty := 0,
          resources := initial_resources (resources s)\<rparr>)"

text \<open>
  Concrete inputs for the examples: an engine whose every draw is 0, one whose k-th draw is
  k and whose every spawn test succeeds, a queue that hands out the oldest entry of least
  cost, a vehicle at (0, 0) with a given route and stuck duration, and the state after a
  reset and one round of spawning.
\<close>

definition zero_rng :: Rng where
  "zero_rng = \<lparr>int_draws = (\<lambda>k. 0), roll_draws = (\<lambda>k. False), drawn = 0\<rparr>"

definition count_rng :: Rng where
  "count_rng = \<lparr>int_draws = (\<lambda>k. k), roll_draws = (\<lambda>k. True), drawn = 0\<rparr>"

definition first_pq :: PQ where
  "first_pq = (\<lambda>start goal g k. 0)"

definition waiting_car :: "Position list \<Rightarrow> int \<Rightarrow> Car" where
  "waiting_car p n =
     \<lparr>car_position = Position 0 0, car_destination = Position 2 0, car_color = RED,
      car_path = p, stuck_time = n, completed = False\<rparr>"

definition busy_env :: Env where
  "busy_env = spawn_cars (reset_state (new_env count_rng))"

text \<open>
  States for the examples of the termination test: \<open>n\<close> vehicles blocked before an empty
  cell with stuck duration \<open>d\<close>, and \<open>n\<close> vehicles with every resource count at 0.
\<close>

definition stuck_fleet :: "nat \<Rightarrow> int \<Rightarrow> Env" where
  "stuck_fleet n d = (new_env zero_rng)\<lparr>cars := replicate n (waiting_car [Position 0 0, Position 1 0] d)\<rparr>"

definition spent_fleet :: "nat \<Rightarrow> Env" where
  "spent_fleet n =
     (new_env zero_rng)\<lparr>resources := map (\<lambda>k. (k, 0)) resource_keys,
                        cars := replicate n (waiting_car [Position 0 0] 0)\<rparr>"

text \<open>The ledger key that \<^verbatim>\<open>execute_action\<close> charges for the placement kinds 0 to 4.\<close>

definition kind_key :: "int \<Rightarrow> string" where
  "kind_key k =
     (if k = 0 then ''roads'' else if k = 1 then ''motorways'' else if k = 2 then ''bridges''
      else if k = 3 then ''roundabouts'' else ''traffic_lights'')"

text \<open>
  The placements of a reset. \<open>cleared_state s\<close> is the state that \<^verbatim>\<open>reset\<close> hands to
  \<^verbatim>\<open>spawn_initial_buildings\<close>. \<open>attempt_cell r j\<close> is the cell that attempt \<open>j\<close> of
  \<^verbatim>\<open>find_empty_position\<close> draws from the engine \<open>r\<close>, and \<open>finds_cell n g r\<close> says that one of
  the first \<open>n\<close> attempts draws an empty cell of \<open>g\<close>. \<open>placed xs s\<close> goes through the
  buildings \<open>xs\<close> in order from the state \<open>s\<close> and keeps those for which one of the 100
  attempts draws a cell that is empty at that moment; \<open>all_found xs s\<close> says that none of
  them gives up.
\<close>

definition cleared_state :: "Env \<Rightarrow> Env" where
  "cleared_state s =
     s\<lparr>grid := empty_grid, cars := [], buildings := [], score := 0, current_step := 0,
       game_over := False, congestion_penalty := 0,
       resources := initial_resources (resources s)\<rparr>"

definition attempt_cell :: "Rng \<Rightarrow> nat \<Rightarrow> int \<times> int" where
  "attempt_cell r j =
     (int (int_draws r (drawn r + 2 * j) mod nat GRID_WIDTH),
      int (int_draws r (drawn r + 2 * j + 1) mod nat GRID_HEIGHT))"

definition finds_cell :: "nat \<Rightarrow> Grid \<Rightarrow> Rng \<Rightarrow> bool" where
  "finds_cell n g r \<longleftrightarrow>
     list_ex (\<lambda>j. tile_at g (fst (attempt_cell r j)) (snd (attempt_cell r j)) = EMPTY) [0..<n]"

fun placed :: "(TileType \<times> CarColor) list \<Rightarrow> Env \<Rightarrow> (TileType \<times> CarColor) list" where
  "placed [] s = []"
| "placed (tc # rest) s =
     (if finds_cell 100 (grid s) (rng s) then [tc] else []) @
     placed rest (spawn_building (fst tc) (snd tc) s)"

fun all_found :: "(TileType \<times> CarColor) list \<Rightarrow> Env \<Rightarrow> bool" where
  "all_found [] s = True"
| "all_found (tc # rest) s =
     (finds_cell 100 (grid s) (rng s) \<and> all_found rest (spawn_building (fst tc) (snd tc) s))"

text \<open>
  \<open>episode pq r s\<close>: the state \<open>s\<close> is reached from the state \<open>r\<close> that a reset left, by
  calls of \<^verbatim>\<open>step\<close>, \<^verbatim>\<open>execute_action\<close>, \<^verbatim>\<open>simulate_traffic\<close> and \<^verbatim>\<open>spawn_cars\<close>, with no
  further reset.
\<close>

inductive episode :: "PQ \<Rightarrow> Env \<Rightarrow> Env \<Rightarrow> bool" for pq r where
  ep_start: "episode pq r r"
| ep_step: "episode pq r s \<Longrightarrow> step pq s a = Some (obs, s') \<Longrightarrow> episode pq r s'"
| ep_action: "episode pq r s \<Longrightarrow> execute_action s t x y = (b, s') \<Longrightarrow> episode pq r s'"
| ep_traffic: "episode pq r s \<Longrightarrow> simulate_traffic pq s = Some s' \<Longrightarrow> episode pq r s'"
| ep_spawn: "episode pq r s \<Longrightarrow> episode pq r (spawn_cars s)"

section \<open>Correctness of the path finder\<close>

lemma adjacent_shift: "adjacent a b \<longleftrightarrow> b \<in> set (map (shift a) directions)"
proof -
  obtain ax ay where a: "a = Position ax ay" by (cases a)
  obtain bx by' where b: "b = Position bx by'" by (cases b)
  show ?thesis unfolding a b adjacent_def shift_def directions_def
    by (simp) arith
qed

lemma distance_lipschitz: "adjacent a b \<Longrightarrow> calculate_distance a c \<le> 1 + calculate_distance b c"
  unfolding adjacent_def calculate_distance_def by arith

lemma finite_in_bounds: "finite {n. in_bounds g n}"
proof -
  have "{n. in_bounds g n} \<subseteq> (\<lambda>(x, y). Position x y) ` ({0..<int (length (g ! 0))} \<times> {0..<int (length g)})"
  proof
    fix n assume "n \<in> {n. in_bounds g n}"
    then have "in_bounds g n" by simp
    then have "(px n, py n) \<in> {0..<int (length (g ! 0))} \<times> {0..<int (length g)}"
      by (simp add: in_bounds_def)
    moreover have "n = (\<lambda>(x, y). Position x y) (px n, py n)" by simp
    ultimately show "n \<in> (\<lambda>(x, y). Position x y) ` ({0..<int (length (g ! 0))} \<times> {0..<int (length g)})"
      by (rule rev_image_eqI)
  qed
  then show ?thesis by (rule finite_subset) simp
qed

lemma min_f_cost_le: "e \<in> set ns \<Longrightarrow> min_f_cost ns \<le> f_cost e"
  by (induction ns rule: min_f_cost.induct) auto

lemma min_f_cost_mem: "ns \<noteq> [] \<Longrightarrow> \<exists>i < length ns. f_cost (ns ! i) = min_f_cost ns"
proof (induction ns rule: min_f_cost.induct)
  case 1 then show ?case by simp
next
  case (2 n) then show ?case by simp
next
  case (3 n m ns)
  then obtain i where i: "i < length (m # ns)" "f_cost ((m # ns) ! i) = min_f_cost (m # ns)" by auto
  show ?case
  proof (cases "f_cost n \<le> min_f_cost (m # ns)")
    case True
    then have "f_cost ((n # m # ns) ! 0) = min_f_cost (n # m # ns)" by (simp add: min_def)
    then show ?thesis by blast
  next
    case False
    then have "f_cost ((n # m # ns) ! Suc i) = min_f_cost (n # m # ns)" using i by (simp add: min_def)
    moreover have "Suc i < length (n # m # ns)" using i by simp
    ultimately show ?thesis by blast
  qed
qed

lemma top_index_props:
  assumes "ns \<noteq> []"
  shows "top_index tie k ns < length ns" and "f_cost (ns ! top_index tie k ns) = min_f_cost ns"
proof -
  let ?cands = "filter (\<lambda>i. f_cost (ns ! i) = min_f_cost ns) [0..<length ns]"
  from min_f_cost_mem[OF assms] obtain i where "i < length ns" "f_cost (ns ! i) = min_f_cost ns" by blast
  then have "i \<in> set ?cands" by simp
  then have ne: "?cands \<noteq> []" by (metis empty_iff list.set(1))
  then have "tie k mod length ?cands < length ?cands" by simp
  then have "?cands ! (tie k mod length ?cands) \<in> set ?cands" by (rule nth_mem)
  then have "top_index tie k ns \<in> set ?cands" by (simp add: top_index_def Let_def)
  then show "top_index tie k ns < length ns" and "f_cost (ns ! top_index tie k ns) = min_f_cost ns"
    by simp_all
qed

lemma top_index_least:
  assumes "e \<in> set ns"
  shows "f_cost (ns ! top_index tie k ns) \<le> f_cost e"
proof -
  have "ns \<noteq> []" using assms by auto
  then show ?thesis using top_index_props(2)[of ns tie k] min_f_cost_le[OF assms] by simp
qed

lemma set_remove_nth: "set (remove_nth i xs) \<subseteq> set xs"
  unfolding remove_nth_def by (auto dest: in_set_takeD in_set_dropD)

lemma remove_nth_keeps: "x \<in> set xs \<Longrightarrow> x \<noteq> xs ! i \<Longrightarrow> x \<in> set (remove_nth i xs)"
proof -
  assume x: "x \<in> set xs" and ne: "x \<noteq> xs ! i"
  then obtain j where j: "j < length xs" "xs ! j = x" by (auto simp: in_set_conv_nth)
  then have "j \<noteq> i" using ne by auto
  then consider "j < i" | "i < j" by arith
  then show ?thesis
  proof cases
    case 1
    then have "take i xs ! j = x" using j by simp
    moreover have "j < length (take i xs)" using 1 j by simp
    ultimately have "x \<in> set (take i xs)" by (metis nth_mem)
    then show ?thesis by (simp add: remove_nth_def)
  next
    case 2
    then have "drop (Suc i) xs ! (j - Suc i) = x" using j by simp
    moreover have "j - Suc i < length (drop (Suc i) xs)" using 2 j by simp
    ultimately have "x \<in> set (drop (Suc i) xs)" by (metis nth_mem)
    then show ?thesis by (simp add: remove_nth_def)
  qed
qed

lemma length_remove_nth: "i < length xs \<Longrightarrow> length (remove_nth i xs) < length xs"
  by (simp add: remove_nth_def)

text \<open>visit_neighbor in a state where the expanded position is closed and has a score\<close>

lemma visit_neighbor_eq:
  assumes "g_score st cur = Some gc"
  shows "visit_neighbor g goal cur dir st =
     (if enterable g (shift cur dir) \<and> shift cur dir \<notin> closed_set st \<and>
         (case g_score st (shift cur dir) of None \<Rightarrow> True | Some v \<Rightarrow> gc + 1 < v)
      then st\<lparr>came_from := (came_from st)(shift cur dir \<mapsto> cur),
              g_score := (g_score st)(shift cur dir \<mapsto> gc + 1),
              open_set := open_set st @
                [Node (shift cur dir) (gc + 1) (calculate_distance (shift cur dir) goal) cur]\<rparr>
      else st)"
  by (simp add: visit_neighbor_def Let_def shift_def enterable_def in_bounds_def assms not_le not_less
        cong: option.case_cong)

lemma relax_to_sel [simp]:
  "closed_set (relax_to st n cur tg goal) = closed_set st"
  "g_score (relax_to st n cur tg goal) = (g_score st)(n \<mapsto> tg)"
  "came_from (relax_to st n cur tg goal) = (came_from st)(n \<mapsto> cur)"
  "open_set (relax_to st n cur tg goal) = open_set st @ [Node n tg (calculate_distance n goal) cur]"
  by (simp_all add: relax_to_def)

lemma relax_open:
  assumes "inv_open g start goal st" "start \<in> closed_set st" "in_bounds g n"
    and "case g_score st n of None \<Rightarrow> True | Some w \<Rightarrow> tg < w"
  shows "inv_open g start goal (relax_to st n cur tg goal)"
  using assms unfolding inv_open_def
  by (auto split: option.splits)

lemma relax_closed:
  assumes "inv_closed g start goal st" "n \<notin> closed_set st"
  shows "inv_closed g start goal (relax_to st n cur tg goal)"
  using assms unfolding inv_closed_def by auto

lemma relax_tree:
  assumes "inv_tree g start st" "start \<in> closed_set st" "n \<notin> closed_set st"
    and "cur \<in> closed_set st" "g_score st cur = Some gc" "adjacent cur n" "enterable g n"
  shows "inv_tree g start (relax_to st n cur (gc + 1) goal)"
  unfolding inv_tree_def
proof (intro conjI allI impI)
  show "g_score (relax_to st n cur (gc + 1) goal) start = Some 0"
    using assms by (auto simp: inv_tree_def)
next
  fix m v assume m: "g_score (relax_to st n cur (gc + 1) goal) m = Some v"
  have gc0: "0 \<le> gc" using assms by (auto simp: inv_tree_def)
  show "0 \<le> v" using m gc0 assms(1) by (auto simp: inv_tree_def split: if_splits)
next
  fix m v assume m: "g_score (relax_to st n cur (gc + 1) goal) m = Some v" and ms: "m \<noteq> start"
  show "\<exists>p w. came_from (relax_to st n cur (gc + 1) goal) m = Some p \<and>
              p \<in> closed_set (relax_to st n cur (gc + 1) goal) \<and> adjacent p m \<and> enterable g m \<and>
              g_score (relax_to st n cur (gc + 1) goal) p = Some w \<and> v = w + 1"
  proof (cases "m = n")
    case True
    then show ?thesis using m assms by auto
  next
    case False
    then have "g_score st m = Some v" using m by simp
    with assms(1) ms obtain p w where p: "came_from st m = Some p" "p \<in> closed_set st" "adjacent p m"
      "enterable g m" "g_score st p = Some w" "v = w + 1" unfolding inv_tree_def by blast
    then have "p \<noteq> n" using assms(3) by auto
    then show ?thesis using p False by auto
  qed
qed

lemma relax_relaxed:
  assumes "inv_relaxed g X st" "n \<notin> closed_set st" "cur \<in> closed_set st"
    and "g_score st cur = Some gc"
    and "case g_score st n of None \<Rightarrow> True | Some w \<Rightarrow> gc + 1 < w"
  shows "inv_relaxed g (X - {(cur, n)}) (relax_to st n cur (gc + 1) goal)"
  unfolding inv_relaxed_def
proof (intro ballI allI impI)
  fix u m
  assume u: "u \<in> closed_set (relax_to st n cur (gc + 1) goal)"
    and h: "adjacent u m \<and> enterable g m \<and> m \<notin> closed_set (relax_to st n cur (gc + 1) goal) \<and>
            (u, m) \<notin> X - {(cur, n)}"
  have un: "u \<noteq> n" using u assms(2) by auto
  show "\<exists>v w. g_score (relax_to st n cur (gc + 1) goal) u = Some v \<and>
              g_score (relax_to st n cur (gc + 1) goal) m = Some w \<and> w \<le> v + 1"
  proof (cases "(u, m) = (cur, n)")
    case True
    then show ?thesis using assms(4) un by auto
  next
    case False
    then have "(u, m) \<notin> X" using h by auto
    with assms(1) u h obtain v w where vw: "g_score st u = Some v" "g_score st m = Some w" "w \<le> v + 1"
      unfolding inv_relaxed_def by fastforce
    show ?thesis
    proof (cases "m = n")
      case True
      then have "gc + 1 < w" using vw assms(5) by simp
      then show ?thesis using vw un True by auto
    next
      case False
      then show ?thesis using vw un by auto
    qed
  qed
qed

lemma relax_frontier:
  assumes "inv_frontier st"
  shows "inv_frontier (relax_to st n cur tg goal)"
  using assms unfolding inv_frontier_def by (auto split: if_splits)

lemma relax_optimal:
  assumes "inv_optimal g start st" "n \<notin> closed_set st"
  shows "inv_optimal g start (relax_to st n cur tg goal)"
  using assms unfolding inv_optimal_def by auto

lemma keep_relaxed:
  assumes "inv_relaxed g X st" "cur \<in> closed_set st" "g_score st cur = Some gc"
    and "\<not> (enterable g n \<and> n \<notin> closed_set st \<and>
            (case g_score st n of None \<Rightarrow> True | Some w \<Rightarrow> gc + 1 < w))"
  shows "inv_relaxed g (X - {(cur, n)}) st"
  unfolding inv_relaxed_def
proof (intro ballI allI impI)
  fix u m
  assume u: "u \<in> closed_set st"
    and h: "adjacent u m \<and> enterable g m \<and> m \<notin> closed_set st \<and> (u, m) \<notin> X - {(cur, n)}"
  show "\<exists>v w. g_score st u = Some v \<and> g_score st m = Some w \<and> w \<le> v + 1"
  proof (cases "(u, m) = (cur, n)")
    case True
    then show ?thesis using assms(3,4) h by (auto split: option.splits)
  next
    case False
    then have "(u, m) \<notin> X" using h by auto
    with assms(1) u h show ?thesis unfolding inv_relaxed_def by fastforce
  qed
qed

lemma visit_neighbor_inv:
  assumes inv: "astar_inv g start goal X st"
    and cur: "cur \<in> closed_set st" and st: "start \<in> closed_set st"
    and dir: "dir \<in> set directions"
  shows "astar_inv g start goal (X - {(cur, shift cur dir)}) (visit_neighbor g goal cur dir st)"
proof -
  let ?n = "shift cur dir"
  from inv cur obtain gc where gc: "g_score st cur = Some gc"
    by (auto simp: astar_inv_def inv_closed_def)
  have adj: "adjacent cur ?n" using dir by (simp add: adjacent_shift)
  let ?c = "enterable g ?n \<and> ?n \<notin> closed_set st \<and>
            (case g_score st ?n of None \<Rightarrow> True | Some w \<Rightarrow> gc + 1 < w)"
  show ?thesis
  proof (cases ?c)
    case True
    then have eq: "visit_neighbor g goal cur dir st = relax_to st ?n cur (gc + 1) goal"
      by (simp add: visit_neighbor_eq[OF gc] relax_to_def)
    have inb: "in_bounds g ?n" using True by (simp add: enterable_def)
    show ?thesis unfolding eq astar_inv_def
      using inv True cur st gc adj inb
        relax_open[of g start goal st ?n "gc + 1" cur]
        relax_closed[of g start goal st ?n cur "gc + 1"]
        relax_tree[of g start st ?n cur gc goal]
        relax_relaxed[of g X st ?n cur gc goal]
        relax_frontier[of st ?n cur "gc + 1" goal]
        relax_optimal[of g start st ?n cur "gc + 1" goal]
      unfolding astar_inv_def by blast
  next
    case False
    then have eq: "visit_neighbor g goal cur dir st = st"
      by (simp only: visit_neighbor_eq[OF gc] if_False)
    show ?thesis unfolding eq
      using inv keep_relaxed[of g X st cur gc ?n] cur gc False
      unfolding astar_inv_def by blast
  qed
qed

lemma visit_neighbor_closed [simp]:
  "closed_set (visit_neighbor g goal cur dir st) = closed_set st"
  by (simp add: visit_neighbor_def Let_def)

lemma fold_visit_closed [simp]:
  "closed_set (fold (visit_neighbor g goal cur) ds st) = closed_set st"
  by (induction ds arbitrary: st) simp_all

lemma fold_visit_inv:
  assumes "astar_inv g start goal X st" "cur \<in> closed_set st" "start \<in> closed_set st"
    and "set ds \<subseteq> set directions"
  shows "astar_inv g start goal (X - {cur} \<times> shift cur ` set ds) (fold (visit_neighbor g goal cur) ds st)"
  using assms
proof (induction ds arbitrary: st X)
  case Nil
  then show ?case by simp
next
  case (Cons d ds)
  have d: "d \<in> set directions" using Cons.prems by simp
  have 1: "astar_inv g start goal (X - {(cur, shift cur d)}) (visit_neighbor g goal cur d st)"
    using visit_neighbor_inv[OF Cons.prems(1,2,3) d] .
  have 2: "astar_inv g start goal (X - {(cur, shift cur d)} - {cur} \<times> shift cur ` set ds)
             (fold (visit_neighbor g goal cur) ds (visit_neighbor g goal cur d st))"
    using Cons.IH[OF 1] Cons.prems by simp
  have "X - {(cur, shift cur d)} - {cur} \<times> shift cur ` set ds = X - {cur} \<times> shift cur ` set (d # ds)"
    by auto
  then show ?case using 2 by simp
qed

lemma is_walk_snoc:
  "is_walk g q \<Longrightarrow> adjacent (last q) c \<Longrightarrow> enterable g c \<Longrightarrow> is_walk g (q @ [c])"
  by (induction g q rule: is_walk.induct) auto

lemma reach_prepend:
  "reach g a k b \<Longrightarrow> adjacent c a \<Longrightarrow> enterable g a \<Longrightarrow> reach g c (Suc k) b"
proof (induction rule: reach.induct)
  case reach_here
  show ?case using reach_move[OF reach.reach_here[of g c] reach_here(1) reach_here(2)] .
next
  case (reach_move k b d)
  then show ?case using reach.reach_move by blast
qed

lemma is_walk_reach: "is_walk g (a # q) \<Longrightarrow> reach g a (length q) (last (a # q))"
proof (induction q arbitrary: a)
  case Nil
  then show ?case by (simp add: reach_here)
next
  case (Cons b q)
  then have "reach g b (length q) (last (b # q))" by simp
  then have "reach g a (Suc (length q)) (last (b # q))"
    using Cons.prems reach_prepend by simp
  then show ?case by simp
qed

text \<open>Following came_from from a scored position\<close>

lemma reconstruct_loop_tree:
  assumes "inv_tree g start st" "g_score st n = Some v"
  shows "\<exists>ch. reconstruct_loop (came_from st) start n acc = Some (acc @ ch) \<and>
              int (length ch) = v \<and> is_walk g (start # rev ch) \<and> last (start # rev ch) = n"
  using assms(2)
proof (induction "nat v" arbitrary: n v acc)
  case 0
  have v0: "0 \<le> v" using assms(1) 0(2) unfolding inv_tree_def by blast
  then have v: "v = 0" using 0(1) by simp
  have "n = start"
  proof (rule ccontr)
    assume "n \<noteq> start"
    with assms(1) 0(2) obtain p w where "g_score st p = Some w" "v = w + 1"
      unfolding inv_tree_def by blast
    moreover then have "0 \<le> w" using assms(1) unfolding inv_tree_def by blast
    ultimately show False using v by simp
  qed
  then show ?case using v by (subst reconstruct_loop.simps) simp
next
  case (Suc m)
  have ns: "n \<noteq> start"
  proof
    assume "n = start"
    then have "v = 0" using assms(1) Suc(3) unfolding inv_tree_def by simp
    then show False using Suc(2) by simp
  qed
  with assms(1) Suc(3) obtain p w where p: "came_from st n = Some p" "adjacent p n" "enterable g n"
    "g_score st p = Some w" "v = w + 1"
    unfolding inv_tree_def by blast
  have "m = nat w" using Suc(2) p(5) by simp
  from Suc(1)[OF this p(4)] obtain ch where ch:
    "reconstruct_loop (came_from st) start p (acc @ [n]) = Some ((acc @ [n]) @ ch)"
    "int (length ch) = w" "is_walk g (start # rev ch)" "last (start # rev ch) = p"
    by blast
  have 1: "reconstruct_loop (came_from st) start n acc = Some (acc @ (n # ch))"
    using ns p(1) ch(1) by (subst reconstruct_loop.simps) simp
  have 2: "is_walk g ((start # rev ch) @ [n])"
    using is_walk_snoc[OF ch(3)] ch(4) p(2,3) by simp
  show ?case using 1 2 ch(2) p(5) by (intro exI[of _ "n # ch"]) simp
qed

lemma reconstruct_path_tree:
  assumes "inv_tree g start st" "g_score st n = Some v"
  shows "\<exists>r. reconstruct_path (came_from st) start n = Some r \<and>
             int (length r) = v + 1 \<and> is_walk g r \<and> hd r = start \<and> last r = n"
proof -
  from reconstruct_loop_tree[OF assms, where acc = "[]"] obtain ch where ch:
    "reconstruct_loop (came_from st) start n [] = Some ch"
    "int (length ch) = v" "is_walk g (start # rev ch)" "last (start # rev ch) = n"
    by auto
  then show ?thesis by (simp add: reconstruct_path_def)
qed

lemma invD_open:
  "astar_inv g start goal X st \<Longrightarrow> e \<in> set (open_set st) \<Longrightarrow>
   h_cost e = calculate_distance (node_pos e) goal \<and> (\<exists>v. g_score st (node_pos e) = Some v \<and> v \<le> g_cost e)"
  unfolding astar_inv_def inv_open_def by simp

lemma invD_frontier:
  "astar_inv g start goal X st \<Longrightarrow> g_score st n = Some v \<Longrightarrow> n \<notin> closed_set st \<Longrightarrow>
   \<exists>e \<in> set (open_set st). node_pos e = n \<and> g_cost e = v"
  unfolding astar_inv_def inv_frontier_def by simp

lemma invD_relaxed:
  "astar_inv g start goal {} st \<Longrightarrow> u \<in> closed_set st \<Longrightarrow> adjacent u n \<Longrightarrow> enterable g n \<Longrightarrow>
   n \<notin> closed_set st \<Longrightarrow> \<exists>v w. g_score st u = Some v \<and> g_score st n = Some w \<and> w \<le> v + 1"
  unfolding astar_inv_def inv_relaxed_def by simp

lemma invD_optimal:
  "astar_inv g start goal X st \<Longrightarrow> u \<in> closed_set st \<Longrightarrow> reach g start k u \<Longrightarrow>
   \<exists>v. g_score st u = Some v \<and> v \<le> int k"
  unfolding astar_inv_def inv_optimal_def by simp

lemma invD_start: "astar_inv g start goal X st \<Longrightarrow> g_score st start = Some 0"
  unfolding astar_inv_def inv_tree_def by simp

text \<open>Some entry of the open set lies on every walk to a position that is not closed\<close>

lemma frontier_bound:
  assumes inv: "astar_inv g start goal {} st"
  shows "reach g start k v \<Longrightarrow> v \<notin> closed_set st \<Longrightarrow>
         \<exists>e \<in> set (open_set st). f_cost e \<le> int k + calculate_distance v goal"
proof (induction rule: reach.induct)
  case reach_here
  from invD_frontier[OF inv invD_start[OF inv] reach_here]
  obtain e where e: "e \<in> set (open_set st)" "node_pos e = start" "g_cost e = 0" by blast
  have "h_cost e = calculate_distance start goal" using invD_open[OF inv e(1)] e(2) by simp
  then have "f_cost e \<le> int 0 + calculate_distance start goal" using e by (simp add: f_cost_def)
  then show ?case using e(1) by blast
next
  case (reach_move k w v)
  show ?case
  proof (cases "w \<in> closed_set st")
    case True
    from invD_optimal[OF inv True reach_move(1)]
    obtain gw where gw: "g_score st w = Some gw" "gw \<le> int k" by blast
    from invD_relaxed[OF inv True reach_move(2) reach_move(3) reach_move(5)]
    obtain a b where ab: "g_score st w = Some a" "g_score st v = Some b" "b \<le> a + 1" by blast
    from invD_frontier[OF inv ab(2) reach_move(5)]
    obtain e where e: "e \<in> set (open_set st)" "node_pos e = v" "g_cost e = b" by blast
    have "h_cost e = calculate_distance v goal" using invD_open[OF inv e(1)] e(2) by simp
    then have "f_cost e \<le> int (Suc k) + calculate_distance v goal"
      using e ab gw by (simp add: f_cost_def)
    then show ?thesis using e(1) by blast
  next
    case False
    from reach_move(4)[OF False] obtain e where e: "e \<in> set (open_set st)"
      "f_cost e \<le> int k + calculate_distance w goal" by blast
    have "calculate_distance w goal \<le> 1 + calculate_distance v goal"
      using distance_lipschitz[OF reach_move(2)] .
    then have "f_cost e \<le> int (Suc k) + calculate_distance v goal" using e(2) by simp
    then show ?thesis using e(1) by blast
  qed
qed

text \<open>The entry handed out by the queue, if not closed yet, carries the least distance\<close>

lemma popped_optimal:
  assumes inv: "astar_inv g start goal {} st" and ne: "open_set st \<noteq> []"
    and i: "i = top_index tie j (open_set st)" and cur: "cur = node_pos (open_set st ! i)"
    and nc: "cur \<notin> closed_set st" and r: "reach g start k cur"
  shows "\<exists>v. g_score st cur = Some v \<and> v \<le> int k"
proof -
  let ?e = "open_set st ! i"
  have il: "i < length (open_set st)" using top_index_props(1)[OF ne] i by simp
  then have em: "?e \<in> set (open_set st)" by simp
  from frontier_bound[OF inv r nc] obtain e' where e': "e' \<in> set (open_set st)"
    "f_cost e' \<le> int k + calculate_distance cur goal" by blast
  have "f_cost ?e \<le> f_cost e'" using top_index_least[OF e'(1)] i by simp
  moreover have h: "h_cost ?e = calculate_distance cur goal"
    using invD_open[OF inv em] cur by simp
  ultimately have le: "g_cost ?e \<le> int k" using e'(2) by (simp add: f_cost_def)
  obtain v where "g_score st cur = Some v" "v \<le> g_cost ?e"
    using invD_open[OF inv em] cur by auto
  then show ?thesis using le by auto
qed

lemma close_inv:
  assumes inv: "astar_inv g start goal {} st" and ne: "open_set st \<noteq> []"
    and i: "i = top_index tie j (open_set st)" and cur: "cur = node_pos (open_set st ! i)"
    and ng: "cur \<noteq> goal"
  shows "astar_inv g start goal ({cur} \<times> shift cur ` set directions)
           (st\<lparr>open_set := remove_nth i (open_set st), closed_set := insert cur (closed_set st)\<rparr>)"
    (is "astar_inv _ _ _ ?X ?st'")
    and "start \<in> insert cur (closed_set st)"
proof -
  let ?e = "open_set st ! i"
  have il: "i < length (open_set st)" using top_index_props(1)[OF ne] i by simp
  then have em: "?e \<in> set (open_set st)" by simp
  have sub: "set (remove_nth i (open_set st)) \<subseteq> set (open_set st)" by (rule set_remove_nth)
  show sc: "start \<in> insert cur (closed_set st)"
    using inv em cur unfolding astar_inv_def inv_open_def by auto
  have 1: "inv_open g start goal ?st'"
    unfolding inv_open_def
  proof (rule conjI)
    show "start \<in> closed_set ?st' \<or> (\<forall>e\<in>set (open_set ?st'). node_pos e = start)"
      using sc by simp
  next
    show "\<forall>e\<in>set (open_set ?st'). (in_bounds g (node_pos e) \<or> node_pos e = start) \<and>
         h_cost e = calculate_distance (node_pos e) goal \<and>
         (\<exists>v. g_score ?st' (node_pos e) = Some v \<and> v \<le> g_cost e)"
    proof (rule ballI)
      fix e assume "e \<in> set (open_set ?st')"
      then have e: "e \<in> set (open_set st)" using sub by auto
      have "in_bounds g (node_pos e) \<or> node_pos e = start"
        using inv e unfolding astar_inv_def inv_open_def by simp
      moreover note invD_open[OF inv e]
      ultimately show "(in_bounds g (node_pos e) \<or> node_pos e = start) \<and>
           h_cost e = calculate_distance (node_pos e) goal \<and>
           (\<exists>v. g_score ?st' (node_pos e) = Some v \<and> v \<le> g_cost e)" by simp
    qed
  qed
  have ic: "inv_closed g start goal st" using inv by (simp add: astar_inv_def)
  have curb: "in_bounds g cur \<or> cur = start"
    using inv em cur unfolding astar_inv_def inv_open_def by simp
  have curg: "g_score st cur \<noteq> None" using invD_open[OF inv em] cur by auto
  have 2: "inv_closed g start goal ?st'"
    unfolding inv_closed_def
  proof (intro conjI ballI)
    show "goal \<notin> closed_set ?st'" using ic ng by (simp add: inv_closed_def)
  next
    fix u assume "u \<in> closed_set ?st'"
    then consider "u = cur" | "u \<in> closed_set st" by auto
    then show "in_bounds g u \<or> u = start"
      using curb ic by cases (simp_all add: inv_closed_def)
  next
    fix u assume "u \<in> closed_set ?st'"
    then consider "u = cur" | "u \<in> closed_set st" by auto
    then show "g_score ?st' u \<noteq> None"
      using curg ic by cases (simp_all add: inv_closed_def)
  qed
  have it: "inv_tree g start st" using inv by (simp add: astar_inv_def)
  have 3: "inv_tree g start ?st'"
    unfolding inv_tree_def
  proof (intro conjI allI impI)
    show "g_score ?st' start = Some 0" using it by (simp add: inv_tree_def)
  next
    fix n v assume "g_score ?st' n = Some v"
    then show "0 \<le> v" using it unfolding inv_tree_def by simp
  next
    fix n v assume h: "g_score ?st' n = Some v" and ns: "n \<noteq> start"
    then have "g_score st n = Some v" by simp
    with it ns obtain p w where "came_from st n = Some p" "p \<in> closed_set st" "adjacent p n"
      "enterable g n" "g_score st p = Some w" "v = w + 1" unfolding inv_tree_def by blast
    then show "\<exists>p w. came_from ?st' n = Some p \<and> p \<in> closed_set ?st' \<and> adjacent p n \<and>
                     enterable g n \<and> g_score ?st' p = Some w \<and> v = w + 1" by simp
  qed
  have 4: "inv_relaxed g ?X ?st'"
    unfolding inv_relaxed_def
  proof (intro ballI allI impI)
    fix u n assume u: "u \<in> closed_set ?st'"
      and h: "adjacent u n \<and> enterable g n \<and> n \<notin> closed_set ?st' \<and> (u, n) \<notin> ?X"
    have "u \<noteq> cur" using h by (auto simp: adjacent_shift)
    then have "u \<in> closed_set st" using u by simp
    moreover have "n \<notin> closed_set st" using h by simp
    ultimately show "\<exists>v w. g_score ?st' u = Some v \<and> g_score ?st' n = Some w \<and> w \<le> v + 1"
      using inv h unfolding astar_inv_def inv_relaxed_def by simp
  qed
  have 5: "inv_frontier ?st'"
    unfolding inv_frontier_def
  proof (intro allI impI)
    fix n v assume h: "g_score ?st' n = Some v \<and> n \<notin> closed_set ?st'"
    then have "g_score st n = Some v" "n \<notin> closed_set st" "n \<noteq> cur" by auto
    then obtain e where e: "e \<in> set (open_set st)" "node_pos e = n" "g_cost e = v"
      using inv unfolding astar_inv_def inv_frontier_def by blast
    then have "e \<noteq> ?e" using \<open>n \<noteq> cur\<close> cur by auto
    then have "e \<in> set (remove_nth i (open_set st))" using remove_nth_keeps e(1) by metis
    then show "\<exists>e\<in>set (open_set ?st'). node_pos e = n \<and> g_cost e = v" using e by auto
  qed
  have 6: "inv_optimal g start ?st'"
    unfolding inv_optimal_def
  proof (intro ballI allI impI)
    fix u k assume u: "u \<in> closed_set ?st'" and r: "reach g start k u"
    show "\<exists>v. g_score ?st' u = Some v \<and> v \<le> int k"
    proof (cases "u \<in> closed_set st")
      case True
      then show ?thesis using inv r unfolding astar_inv_def inv_optimal_def by simp
    next
      case False
      then have "u = cur" using u by simp
      then show ?thesis using popped_optimal[OF inv ne i cur] False r by simp
    qed
  qed
  show "astar_inv g start goal ?X ?st'"
    unfolding astar_inv_def using 1 2 3 4 5 6 by blast
qed

lemma expand_inv:
  assumes inv: "astar_inv g start goal {} st" and ne: "open_set st \<noteq> []"
    and i: "i = top_index tie j (open_set st)" and cur: "cur = node_pos (open_set st ! i)"
    and ng: "cur \<noteq> goal"
  shows "astar_inv g start goal {} (expand g goal cur (st\<lparr>open_set := remove_nth i (open_set st)\<rparr>))"
proof -
  let ?st' = "st\<lparr>open_set := remove_nth i (open_set st), closed_set := insert cur (closed_set st)\<rparr>"
  have a: "astar_inv g start goal ({cur} \<times> shift cur ` set directions) ?st'"
    and b: "start \<in> insert cur (closed_set st)"
    using close_inv[OF inv ne i cur ng] by blast+
  have "astar_inv g start goal ({cur} \<times> shift cur ` set directions - {cur} \<times> shift cur ` set directions)
          (fold (visit_neighbor g goal cur) directions ?st')"
    by (rule fold_visit_inv[OF a]) (use b in simp_all)
  then show ?thesis by (simp add: expand_def)
qed

lemma expand_closed [simp]: "closed_set (expand g goal cur st) = insert cur (closed_set st)"
  by (simp add: expand_def)

lemma visit_stale:
  assumes "inv_relaxed g {} st" "inv_closed g start goal st" "cur \<in> closed_set st"
    and "dir \<in> set directions"
  shows "visit_neighbor g goal cur dir st = st"
proof -
  from assms obtain gc where gc: "g_score st cur = Some gc" by (auto simp: inv_closed_def)
  have adj: "adjacent cur (shift cur dir)" using assms(4) by (simp add: adjacent_shift)
  have "\<not> (enterable g (shift cur dir) \<and> shift cur dir \<notin> closed_set st \<and>
            (case g_score st (shift cur dir) of None \<Rightarrow> True | Some v \<Rightarrow> gc + 1 < v))"
  proof
    assume h: "enterable g (shift cur dir) \<and> shift cur dir \<notin> closed_set st \<and>
            (case g_score st (shift cur dir) of None \<Rightarrow> True | Some v \<Rightarrow> gc + 1 < v)"
    with assms(1,3) adj obtain v w where "g_score st cur = Some v" "g_score st (shift cur dir) = Some w" "w \<le> v + 1"
      unfolding inv_relaxed_def by blast
    then show False using h gc by simp
  qed
  then show ?thesis by (simp only: visit_neighbor_eq[OF gc] if_False)
qed

lemma fold_visit_stale:
  assumes "inv_relaxed g {} st" "inv_closed g start goal st" "cur \<in> closed_set st"
    and "set ds \<subseteq> set directions"
  shows "fold (visit_neighbor g goal cur) ds st = st"
  using assms(4)
proof (induction ds)
  case Nil then show ?case by simp
next
  case (Cons d ds)
  then show ?case using visit_stale[OF assms(1,2,3), of d] by simp
qed

lemma expand_stale:
  assumes inv: "astar_inv g start goal {} st" and c: "cur \<in> closed_set st"
  shows "expand g goal cur (st\<lparr>open_set := ns\<rparr>) = st\<lparr>open_set := ns\<rparr>"
proof -
  let ?s = "st\<lparr>open_set := ns\<rparr>"
  have 1: "inv_relaxed g {} ?s" using inv by (simp add: astar_inv_def inv_relaxed_def)
  have 2: "inv_closed g start goal ?s" using inv by (simp add: astar_inv_def inv_closed_def)
  have 3: "cur \<in> closed_set ?s" using c by simp
  have "?s\<lparr>closed_set := insert cur (closed_set ?s)\<rparr> = ?s" using c by (simp add: insert_absorb)
  then show ?thesis unfolding expand_def using fold_visit_stale[OF 1 2 3, of directions] by simp
qed

lemma finite_region: "finite (region g start)"
  by (simp add: region_def finite_in_bounds)

lemma wf_search_order: "wf (search_order g start)"
  unfolding search_order_def by (intro wf_inv_image wf_lex_prod wf_less_than)

lemma astar_loop_returns:
  assumes "astar_inv g start goal {} st"
  shows "\<exists>r. astar_loop tie g start goal k st = Some r \<and>
             (\<forall>n. reach g start n goal \<longrightarrow>
                is_walk g r \<and> hd r = start \<and> last r = goal \<and> length r \<le> Suc n)"
  using assms
proof (induction st arbitrary: k rule: wf_induct_rule[OF wf_search_order[of g start]])
  case (1 st)
  note inv = "1.prems"
  show ?case
  proof (cases "open_set st = []")
    case True
    have "\<not> reach g start n goal" for n
    proof
      assume r: "reach g start n goal"
      have "goal \<notin> closed_set st" using inv by (simp add: astar_inv_def inv_closed_def)
      from frontier_bound[OF inv r this] show False using True by simp
    qed
    moreover have "astar_loop tie g start goal k st = Some []"
      using True by (subst astar_loop.simps) simp
    ultimately show ?thesis by simp
  next
    case False
    define i where "i = top_index tie k (open_set st)"
    define cur where "cur = node_pos (open_set st ! i)"
    define st1 where "st1 = st\<lparr>open_set := remove_nth i (open_set st)\<rparr>"
    have il: "i < length (open_set st)" using top_index_props(1)[OF False] i_def by simp
    then have em: "open_set st ! i \<in> set (open_set st)" by simp
    show ?thesis
    proof (cases "cur = goal")
      case True
      have eq: "astar_loop tie g start goal k st = reconstruct_path (came_from st) start goal"
        using False True
        by (subst astar_loop.simps) (simp add: Let_def i_def[symmetric] cur_def[symmetric])
      obtain v where v: "g_score st goal = Some v"
        using invD_open[OF inv em] True cur_def by auto
      have it: "inv_tree g start st" using inv by (simp add: astar_inv_def)
      from reconstruct_path_tree[OF it v] obtain r where r:
        "reconstruct_path (came_from st) start goal = Some r" "int (length r) = v + 1"
        "is_walk g r" "hd r = start" "last r = goal" by blast
      have "length r \<le> Suc n" if "reach g start n goal" for n
      proof -
        have nc: "cur \<notin> closed_set st" using inv True by (simp add: astar_inv_def inv_closed_def)
        from popped_optimal[OF inv False i_def cur_def nc] that True v
        have "v \<le> int n" by auto
        then show ?thesis using r(2) by simp
      qed
      then show ?thesis using eq r by simp
    next
      case ng: False
      let ?st' = "expand g goal cur st1"
      have eq: "astar_loop tie g start goal k st = astar_loop tie g start goal (Suc k) ?st'"
        using False ng
        by (subst astar_loop.simps)
           (simp add: Let_def i_def[symmetric] cur_def[symmetric] st1_def[symmetric])
      have inv': "astar_inv g start goal {} ?st'"
        unfolding st1_def by (rule expand_inv[OF inv False i_def cur_def ng])
      have less: "(?st', st) \<in> search_order g start"
      proof (cases "cur \<in> closed_set st")
        case True
        have "?st' = st1" unfolding st1_def by (rule expand_stale[OF inv True])
        moreover have "length (open_set st1) < length (open_set st)"
          unfolding st1_def using length_remove_nth[OF il] by simp
        moreover have "closed_set st1 = closed_set st" by (simp add: st1_def)
        ultimately show ?thesis by (simp add: search_order_def)
      next
        case nc: False
        have "in_bounds g cur \<or> cur = start"
          using inv em cur_def unfolding astar_inv_def inv_open_def by simp
        then have "cur \<in> region g start - closed_set st" using nc by (auto simp: region_def)
        moreover have "region g start - closed_set ?st' = (region g start - closed_set st) - {cur}"
          by (auto simp: st1_def)
        moreover have "finite (region g start - closed_set st)" using finite_region by simp
        ultimately have "card (region g start - closed_set ?st') < card (region g start - closed_set st)"
          using card_Diff1_less[of "region g start - closed_set st" cur] by simp
        then show ?thesis by (simp add: search_order_def)
      qed
      from "1.IH"[OF less inv'] show ?thesis unfolding eq by simp
    qed
  qed
qed

lemma initial_inv:
  "astar_inv g start goal {}
     \<lparr>open_set = [Node start 0 (calculate_distance start goal) (Position 0 0)],
      closed_set = {}, came_from = Map.empty, g_score = [start \<mapsto> 0]\<rparr>"
  unfolding astar_inv_def inv_open_def inv_closed_def inv_tree_def inv_relaxed_def
    inv_frontier_def inv_optimal_def
  by (simp split: if_splits)

lemma find_path_returns:
  "\<exists>r. find_path tie start goal g = Some r \<and>
       (\<forall>n. reach g start n goal \<longrightarrow>
          is_walk g r \<and> hd r = start \<and> last r = goal \<and> length r \<le> Suc n)"
  unfolding find_path_def by (rule astar_loop_returns[OF initial_inv])

lemma connects_walk: "q \<noteq> [] \<Longrightarrow> list_all (enterable g) q \<Longrightarrow> steps_adjacent q \<Longrightarrow> is_walk g q"
  by (induction g q rule: is_walk.induct) auto

lemma walk_connects: "is_walk g q \<Longrightarrow> enterable g (hd q) \<Longrightarrow> list_all (enterable g) q \<and> steps_adjacent q"
  by (induction g q rule: is_walk.induct) auto

lemma connects_reach:
  assumes "connects g start goal q"
  shows "reach g start (length q - 1) goal"
proof -
  from assms obtain a r where q: "q = a # r" by (cases q) (auto simp: connects_def)
  have "a # r \<noteq> []" "list_all (enterable g) (a # r)" "steps_adjacent (a # r)"
    using assms q by (auto simp: connects_def)
  then have "is_walk g (a # r)" by (rule connects_walk)
  from is_walk_reach[OF this] show ?thesis using assms q by (simp add: connects_def)
qed

text \<open>
  Claim C1. For every grid and every start and goal connected by a sequence \<open>q\<close> of
  4-adjacent passable cells, and whatever the order in which the priority queue hands out
  entries of equal cost, \<^verbatim>\<open>find_path\<close> returns a sequence \<open>p\<close> that begins with the start,
  ends with the goal, steps between 4-adjacent cells over passable cells only, and whose
  number of moves \<open>length p - 1\<close> is at most that of every connecting sequence: it is the
  minimum number of moves from start to goal.
\<close>

theorem find_path_shortest:
  assumes "rectangular g" and "connects g start goal q"
  shows "\<exists>p. find_path tie start goal g = Some p \<and> connects g start goal p \<and>
             (\<forall>q'. connects g start goal q' \<longrightarrow> length p - 1 \<le> length q' - 1)"
proof -
  from find_path_returns[of tie start goal g] obtain p where p: "find_path tie start goal g = Some p"
    and opt: "\<And>n. reach g start n goal \<Longrightarrow>
                is_walk g p \<and> hd p = start \<and> last p = goal \<and> length p \<le> Suc n" by blast
  have w: "is_walk g p" "hd p = start" "last p = goal"
    using opt[OF connects_reach[OF assms(2)]] by simp_all
  have "enterable g start" using assms(2) by (cases q) (auto simp: connects_def)
  then have "connects g start goal p"
    using w walk_connects[of g p] by (cases p) (auto simp: connects_def)
  moreover have "length p - 1 \<le> length q' - 1" if "connects g start goal q'" for q'
    using opt[OF connects_reach[OF that]] by linarith
  ultimately show ?thesis using p by blast
qed

text \<open>A grid with a wall between start and goal: the route goes around it.\<close>

theorem find_path_shortest_witness:
  "rectangular [[ROAD, ROAD, ROAD], [ROAD, EMPTY, ROAD]] \<and>
   connects [[ROAD, ROAD, ROAD], [ROAD, EMPTY, ROAD]] (Position 0 1) (Position 2 1)
     [Position 0 1, Position 0 0, Position 1 0, Position 2 0, Position 2 1] \<and>
   (\<exists>p. find_path (\<lambda>k. k) (Position 0 1) (Position 2 1) [[ROAD, ROAD, ROAD], [ROAD, EMPTY, ROAD]] = Some p \<and>
        connects [[ROAD, ROAD, ROAD], [ROAD, EMPTY, ROAD]] (Position 0 1) (Position 2 1) p \<and>
        (\<forall>q'. connects [[ROAD, ROAD, ROAD], [ROAD, EMPTY, ROAD]] (Position 0 1) (Position 2 1) q' \<longrightarrow>
              length p - 1 \<le> length q' - 1))"
proof -
  have r: "rectangular [[ROAD, ROAD, ROAD], [ROAD, EMPTY, ROAD]]"
    by (simp add: rectangular_def)
  have c: "connects [[ROAD, ROAD, ROAD], [ROAD, EMPTY, ROAD]] (Position 0 1) (Position 2 1)
     [Position 0 1, Position 0 0, Position 1 0, Position 2 0, Position 2 1]"
    by (simp add: connects_def enterable_def in_bounds_def passable_def adjacent_def)
  show ?thesis using r c find_path_shortest[OF r c, of "\<lambda>k. k"] by blast
qed

section \<open>Properties of the environment\<close>

text \<open>Ledger\<close>

lemma ledger_map_of:
  assumes "ledger_ok r" "k \<in> set resource_keys"
  shows "map_of r k = Some (res_get k r)"
proof -
  have "k \<in> fst ` set r" using assms by (metis ledger_ok_def set_map)
  then obtain v where "map_of r k = Some v" by (metis domD dom_map_of_conv_image_fst)
  then show ?thesis by (simp add: res_get_def)
qed

lemma res_touch_ok: "ledger_ok r \<Longrightarrow> k \<in> set resource_keys \<Longrightarrow> res_touch k r = r"
  by (simp add: res_touch_def ledger_map_of)

lemma res_at_ok: "ledger_ok r \<Longrightarrow> k \<in> set resource_keys \<Longrightarrow> res_at k r = Some (res_get k r)"
  by (simp add: res_at_def ledger_map_of)

lemma res_get_set: "res_get k (res_set k' v r) = (if k = k' then v else res_get k r)"
  by (simp add: res_get_def res_set_def update_conv')

lemma res_set_ok: "ledger_ok r \<Longrightarrow> k \<in> set resource_keys \<Longrightarrow> ledger_ok (res_set k v r)"
  unfolding ledger_ok_def res_set_def by (simp add: update_keys)

lemma res_set_same: "ledger_ok r \<Longrightarrow> k \<in> set resource_keys \<Longrightarrow> res_set k (res_get k r) r = r"
  unfolding res_set_def by (rule update_triv) (simp add: ledger_map_of)

lemma res_set_set: "res_set k v (res_set k w r) = res_set k v r"
  by (simp add: res_set_def)

lemma ledger_sum:
  assumes "ledger_ok r"
  shows "sum_list (map snd r) =
         res_get ''roads'' r + res_get ''motorways'' r + res_get ''bridges'' r +
         res_get ''roundabouts'' r + res_get ''traffic_lights'' r + res_get ''upgrades'' r"
proof -
  from assms obtain a b c d e f where
    "r = [(''roads'', a), (''motorways'', b), (''bridges'', c), (''roundabouts'', d),
          (''traffic_lights'', e), (''upgrades'', f)]"
    unfolding ledger_ok_def resource_keys_def by (auto simp: map_eq_Cons_conv)
  then show ?thesis by (simp add: res_get_def)
qed

lemma initial_resources_new: "ledger_ok (initial_resources [])"
  by (simp add: ledger_ok_def initial_resources_def res_set_def resource_keys_def)

lemma initial_resources_ok: "ledger_ok r \<Longrightarrow> ledger_ok (initial_resources r)"
  unfolding initial_resources_def by (intro res_set_ok) (simp_all add: resource_keys_def)

lemma initial_resources_nonneg: "list_all (\<lambda>k. 0 \<le> res_get k (initial_resources r)) resource_keys"
  by (simp add: initial_resources_def resource_keys_def res_get_set)

text \<open>Grid\<close>

lemma grid_ok_set_tile: "grid_ok g \<Longrightarrow> grid_ok (set_tile g x y t)"
proof (cases "nat y < length g")
  case False
  assume "grid_ok g"
  then show ?thesis using False by (simp add: set_tile_def list_update_beyond)
next
  case True
  assume g: "grid_ok g"
  then have "length (g ! nat y) = nat GRID_WIDTH" using True by (simp add: grid_ok_def list_all_length)
  then have "length ((g ! nat y)[nat x := t]) = nat GRID_WIDTH" by simp
  moreover have "set (g[nat y := (g ! nat y)[nat x := t]]) \<subseteq> insert ((g ! nat y)[nat x := t]) (set g)"
    by (rule set_update_subset_insert)
  ultimately show ?thesis using g unfolding grid_ok_def set_tile_def list_all_iff by auto
qed

lemma grid_ok_nth: "grid_ok g \<Longrightarrow> is_valid_position (Position x y) \<Longrightarrow>
  nat y < length g \<and> nat x < length (g ! nat y)"
  unfolding grid_ok_def is_valid_position_def list_all_length by auto

lemma tile_at_set_tile:
  "grid_ok g \<Longrightarrow> is_valid_position (Position x y) \<Longrightarrow> tile_at (set_tile g x y t) x y = t"
  using grid_ok_nth[of g x y] by (simp add: tile_at_def set_tile_def)

lemma set_tile_set_tile: "set_tile (set_tile g x y t) x y t' = set_tile g x y t'"
  by (cases "nat y < length g") (simp_all add: set_tile_def list_update_beyond)

lemma set_tile_same: "set_tile g x y (tile_at g x y) = g"
  by (simp add: set_tile_def tile_at_def)

lemma grid_ok_empty: "grid_ok empty_grid"
  by (simp add: grid_ok_def empty_grid_def list_all_iff)

text \<open>Placing and removing\<close>

lemma place_fail:
  assumes "ledger_ok (resources s)" "k \<in> set resource_keys" "place k t0 t1 s x y = (False, s')"
  shows "s' = s"
  using assms by (auto simp: place_def Let_def res_touch_ok split: if_splits)

lemma place_success:
  assumes "place k t0 t1 s x y = (True, s')"
  shows "\<exists>v. map_of (resources s) k = Some v \<and> 0 < v \<and> tile_at (grid s) x y = t0 \<and>
             s' = s\<lparr>grid := set_tile (grid s) x y t1, resources := res_set k (v - 1) (resources s)\<rparr>"
proof (cases "map_of (resources s) k")
  case None
  then have "res_get k (res_touch k (resources s)) = 0"
    by (simp add: res_touch_def res_get_def map_add_def)
  then show ?thesis using assms by (simp add: place_def Let_def)
next
  case (Some v)
  then have "res_touch k (resources s) = resources s" "res_get k (resources s) = v"
    by (simp_all add: res_touch_def res_get_def)
  then show ?thesis using assms Some by (auto simp: place_def Let_def split: if_splits)
qed

lemma remove_fail: "remove_infrastructure s x y = (False, s') \<Longrightarrow> s' = s"
  by (auto simp: remove_infrastructure_def Let_def split: if_splits)

lemma execute_action_fail:
  assumes "ledger_ok (resources s)" "execute_action s t x y = (False, s')"
  shows "s' = s"
proof -
  have keys: "''roads'' \<in> set resource_keys" "''motorways'' \<in> set resource_keys"
    "''bridges'' \<in> set resource_keys" "''roundabouts'' \<in> set resource_keys"
    "''traffic_lights'' \<in> set resource_keys" by (simp_all add: resource_keys_def)
  show ?thesis using assms(2) place_fail[OF assms(1)] keys remove_fail
    unfolding execute_action_def by (auto split: if_splits)
qed

lemma place_inv:
  assumes "action_inv s" "k \<in> set resource_keys" "place k t0 t1 s x y = (b, s')"
  shows "action_inv s' \<and> cars s' = cars s \<and> buildings s' = buildings s"
proof (cases b)
  case False
  then show ?thesis using assms place_fail[of s k t0 t1 x y s'] by (simp add: action_inv_def)
next
  case True
  with place_success[of k t0 t1 s x y s'] assms obtain v where v:
    "map_of (resources s) k = Some v" "0 < v"
    "s' = s\<lparr>grid := set_tile (grid s) x y t1, resources := res_set k (v - 1) (resources s)\<rparr>"
    by auto
  have "list_all (\<lambda>k'. 0 \<le> res_get k' (res_set k (v - 1) (resources s))) resource_keys"
    using assms(1) v(2) by (auto simp: action_inv_def list_all_iff res_get_set)
  then show ?thesis using assms(1,2) v(3)
    by (simp add: action_inv_def grid_ok_set_tile res_set_ok)
qed

lemma remove_inv:
  assumes "action_inv s" "remove_infrastructure s x y = (b, s')"
  shows "action_inv s' \<and> cars s' = cars s \<and> buildings s' = buildings s"
proof -
  have keys: "''roads'' \<in> set resource_keys" "''motorways'' \<in> set resource_keys"
    by (simp_all add: resource_keys_def)
  have nn: "0 \<le> res_get ''roads'' (resources s)" "0 \<le> res_get ''motorways'' (resources s)"
    using assms(1) keys by (auto simp: action_inv_def list_all_iff)
  have 1: "list_all (\<lambda>k'. 0 \<le> res_get k' (res_set ''roads'' (res_get ''roads'' (resources s) + 1) (resources s))) resource_keys"
    using assms(1) nn by (auto simp: action_inv_def list_all_iff res_get_set)
  have 2: "list_all (\<lambda>k'. 0 \<le> res_get k' (res_set ''motorways'' (res_get ''motorways'' (resources s) + 1) (resources s))) resource_keys"
    using assms(1) nn by (auto simp: action_inv_def list_all_iff res_get_set)
  show ?thesis using assms 1 2 keys
    by (auto simp: remove_infrastructure_def Let_def action_inv_def grid_ok_set_tile res_set_ok
             split: if_splits)
qed

lemma execute_action_inv:
  assumes "action_inv s" "execute_action s t x y = (b, s')"
  shows "action_inv s' \<and> cars s' = cars s \<and> buildings s' = buildings s"
proof -
  have keys: "''roads'' \<in> set resource_keys" "''motorways'' \<in> set resource_keys"
    "''bridges'' \<in> set resource_keys" "''roundabouts'' \<in> set resource_keys"
    "''traffic_lights'' \<in> set resource_keys" by (simp_all add: resource_keys_def)
  show ?thesis using assms(2) place_inv[OF assms(1)] remove_inv[OF assms(1)] keys assms(1)
    unfolding execute_action_def by (auto split: if_splits)
qed

lemma place_then_remove:
  assumes g: "grid_ok (grid s)" and v: "is_valid_position (Position x y)"
    and p: "place k EMPTY t1 s x y = (True, s1)"
    and k: "(t1 = ROAD \<and> k = ''roads'') \<or> (t1 = MOTORWAY \<and> k = ''motorways'')"
  shows "remove_infrastructure s1 x y = (True, s1\<lparr>grid := grid s, resources := resources s\<rparr>)"
proof -
  from place_success[OF p] obtain w where w: "map_of (resources s) k = Some w"
    "tile_at (grid s) x y = EMPTY"
    "s1 = s\<lparr>grid := set_tile (grid s) x y t1, resources := res_set k (w - 1) (resources s)\<rparr>"
    by blast
  have t: "tile_at (grid s1) x y = t1" using w(3) tile_at_set_tile[OF g v] by simp
  have g': "set_tile (grid s1) x y EMPTY = grid s"
    using w(2,3) set_tile_same[of "grid s" x y] by (simp add: set_tile_set_tile)
  have r': "res_set k (res_get k (resources s1) + 1) (resources s1) = resources s"
    using w(1,3) by (simp add: res_get_set res_set_set) (simp add: res_set_def update_triv)
  show ?thesis using k t g' r'
    by (auto simp: remove_infrastructure_def Let_def)
qed

lemma place_count:
  assumes "place k t0 t1 s x y = (True, s1)"
  shows "res_get k (resources s1) = res_get k (resources s) - 1 \<and>
         (\<forall>k'. k' \<noteq> k \<longrightarrow> res_get k' (resources s1) = res_get k' (resources s))"
proof -
  from place_success[OF assms] obtain v where v: "map_of (resources s) k = Some v"
    "s1 = s\<lparr>grid := set_tile (grid s) x y t1, resources := res_set k (v - 1) (resources s)\<rparr>"
    by blast
  have "res_get k (resources s) = v" using v(1) by (simp add: res_get_def)
  then show ?thesis using v(2) by (simp add: res_get_set)
qed

text \<open>
  Claim C5, as amended. On the 20 by 20 grid, after a successful placement of a road or a
  motorway, \<^verbatim>\<open>Remove\<close> (kind 5) at the same cell succeeds and restores the ledger and the
  grid exactly. After a successful placement of a bridge, a roundabout or a traffic light,
  \<^verbatim>\<open>Remove\<close> at that cell returns false and changes nothing, so the ledger stays as the
  placement left it: the count of the placed kind one below its original value, every
  other count at its original value.
\<close>

theorem place_remove_round_trip:
  assumes "grid_ok (grid s)" and "execute_action s k x y = (True, s1)"
  shows "(k = 0 \<or> k = 1 \<longrightarrow>
            (\<exists>s2. execute_action s1 5 x y = (True, s2) \<and> resources s2 = resources s \<and> grid s2 = grid s)) \<and>
         (k = 2 \<or> k = 3 \<or> k = 4 \<longrightarrow>
            execute_action s1 5 x y = (False, s1) \<and>
            res_get (kind_key k) (resources s1) = res_get (kind_key k) (resources s) - 1 \<and>
            (\<forall>k'. k' \<noteq> kind_key k \<longrightarrow> res_get k' (resources s1) = res_get k' (resources s)))"
proof -
  have v: "is_valid_position (Position x y)"
    using assms(2) by (auto simp: execute_action_def split: if_splits)
  have a: "k = 0 \<Longrightarrow> execute_action s1 5 x y = (True, s1\<lparr>grid := grid s, resources := resources s\<rparr>)"
    using assms v place_then_remove[of s x y "''roads''" ROAD s1]
    by (simp add: execute_action_def)
  have b: "k = 1 \<Longrightarrow> execute_action s1 5 x y = (True, s1\<lparr>grid := grid s, resources := resources s\<rparr>)"
    using assms v place_then_remove[of s x y "''motorways''" MOTORWAY s1]
    by (simp add: execute_action_def)
  have c: "execute_action s1 5 x y = (False, s1) \<and>
            res_get (kind_key k) (resources s1) = res_get (kind_key k) (resources s) - 1 \<and>
            (\<forall>k'. k' \<noteq> kind_key k \<longrightarrow> res_get k' (resources s1) = res_get k' (resources s))"
    if "k = 2 \<or> k = 3 \<or> k = 4"
  proof -
    from that assms(2) v obtain t0 t1 where p: "place (kind_key k) t0 t1 s x y = (True, s1)"
      and t1: "t1 = BRIDGE \<or> t1 = ROUNDABOUT \<or> t1 = TRAFFIC_LIGHT"
      by (auto simp: execute_action_def kind_key_def)
    from place_success[OF p] have "grid s1 = set_tile (grid s) x y t1" by auto
    then have "tile_at (grid s1) x y = t1" using tile_at_set_tile[OF assms(1) v] by simp
    then have "execute_action s1 5 x y = (False, s1)"
      using t1 v by (auto simp: execute_action_def remove_infrastructure_def)
    then show ?thesis using place_count[OF p] by simp
  qed
  show ?thesis using a b c by auto
qed

text \<open>A road and a bridge placed at (3, 4) of the fresh grid, then removed: 2 bridges before, 1 after.\<close>

theorem place_remove_round_trip_witness:
  "grid_ok (grid (new_env zero_rng)) \<and>
   fst (execute_action (new_env zero_rng) 0 3 4) \<and>
   (\<exists>s2. execute_action (snd (execute_action (new_env zero_rng) 0 3 4)) 5 3 4 = (True, s2) \<and>
         resources s2 = resources (new_env zero_rng) \<and> grid s2 = grid (new_env zero_rng)) \<and>
   fst (execute_action (new_env zero_rng) 2 3 4) \<and>
   execute_action (snd (execute_action (new_env zero_rng) 2 3 4)) 5 3 4 =
     (False, snd (execute_action (new_env zero_rng) 2 3 4)) \<and>
   res_get ''bridges'' (resources (snd (execute_action (new_env zero_rng) 2 3 4))) = 1 \<and>
   res_get ''roads'' (resources (snd (execute_action (new_env zero_rng) 2 3 4))) = 20"
proof -
  have g: "grid_ok (grid (new_env zero_rng))" by (simp add: new_env_def grid_ok_empty)
  have f0: "fst (execute_action (new_env zero_rng) 0 3 4)"
    by (simp add: execute_action_def is_valid_position_def GRID_WIDTH_def GRID_HEIGHT_def place_def
      new_env_def initial_resources_def res_set_def res_touch_def res_get_def Let_def tile_at_def empty_grid_def)
  have f2: "fst (execute_action (new_env zero_rng) 2 3 4)"
    by (simp add: execute_action_def is_valid_position_def GRID_WIDTH_def GRID_HEIGHT_def place_def
      new_env_def initial_resources_def res_set_def res_touch_def res_get_def Let_def tile_at_def empty_grid_def)
  have e0: "execute_action (new_env zero_rng) 0 3 4 = (True, snd (execute_action (new_env zero_rng) 0 3 4))"
    using f0 by (simp add: prod_eq_iff)
  have e2: "execute_action (new_env zero_rng) 2 3 4 = (True, snd (execute_action (new_env zero_rng) 2 3 4))"
    using f2 by (simp add: prod_eq_iff)
  have b: "res_get ''bridges'' (resources (new_env zero_rng)) = 2"
    "res_get ''roads'' (resources (new_env zero_rng)) = 20"
    by (simp_all add: new_env_def initial_resources_def res_set_def res_get_def)
  have k: "kind_key 2 = ''bridges''" "''roads'' \<noteq> kind_key 2" by (simp_all add: kind_key_def)
  from place_remove_round_trip[OF g e2] k b
  have "execute_action (snd (execute_action (new_env zero_rng) 2 3 4)) 5 3 4 =
          (False, snd (execute_action (new_env zero_rng) 2 3 4)) \<and>
        res_get ''bridges'' (resources (snd (execute_action (new_env zero_rng) 2 3 4))) = 1 \<and>
        res_get ''roads'' (resources (snd (execute_action (new_env zero_rng) 2 3 4))) = 20"
    by simp
  then show ?thesis
    using g f0 f2 place_remove_round_trip[OF g e0] by simp
qed

text \<open>Claim C5 as stated fails for a bridge: placed at (0, 0) and removed, the count stays at 1.\<close>

theorem bridge_round_trip_counterexample:
  "fst (execute_action (new_env zero_rng) 2 0 0) \<and>
   res_get ''bridges'' (resources (new_env zero_rng)) = 2 \<and>
   res_get ''bridges''
     (resources (snd (execute_action (snd (execute_action (new_env zero_rng) 2 0 0)) 5 0 0))) = 1"
  by (simp add: execute_action_def is_valid_position_def GRID_WIDTH_def GRID_HEIGHT_def place_def
      new_env_def initial_resources_def res_set_def res_touch_def res_get_def Let_def tile_at_def
      set_tile_def empty_grid_def remove_infrastructure_def)

text \<open>Traffic\<close>

lemma traffic_car_completed: "completed c \<Longrightarrow> traffic_car pq g c acc = Some (c, acc)"
  by (simp add: traffic_car_def)

lemma traffic_car_stuck:
  assumes "\<not> completed c" "2 \<le> length (car_path c)" "\<not> can_move_to g (car_path c ! 1)"
  shows "traffic_car pq g c acc =
         Some (c\<lparr>stuck_time := stuck_time c + 1\<rparr>, fst acc,
               snd acc + (if stuck_time c + 1 > 10 then 1 else 0))"
proof -
  have "car_path c \<noteq> []" using assms(2) by auto
  then show ?thesis using assms by (simp add: traffic_car_def Let_def)
qed

lemma traffic_car_idle:
  assumes "\<not> completed c"
    and "(car_path c = [] \<and>
          find_path (pq (car_position c) (car_destination c) g) (car_position c) (car_destination c) g = Some [])
         \<or> length (car_path c) = 1"
  shows "traffic_car pq g c acc = Some (c, acc)"
  using assms by (auto simp: traffic_car_def Let_def)

lemma traffic_car_shape:
  "\<exists>c' ds dp. (\<forall>acc. traffic_car pq g c acc = Some (c', fst acc + ds, snd acc + dp)) \<and>
              (car_ok c \<longrightarrow> car_ok c') \<and> 0 \<le> dp \<and> 0 \<le> ds"
proof (cases "completed c")
  case True
  then have "\<forall>acc. traffic_car pq g c acc = Some (c, fst acc + 0, snd acc + 0)"
    by (simp add: traffic_car_def)
  then show ?thesis by (intro exI[of _ c] exI[of _ 0]) simp
next
  case False
  obtain p where p: "(if car_path c = []
              then find_path (pq (car_position c) (car_destination c) g)
                     (car_position c) (car_destination c) g
              else Some (car_path c)) = Some p"
    using find_path_returns[of "pq (car_position c) (car_destination c) g" "car_position c" "car_destination c" g]
    by (cases "car_path c = []") auto
  have stuck0: "car_ok c \<Longrightarrow> length p \<le> 1 \<Longrightarrow> stuck_time c = 0"
    using p by (cases "car_path c = []") (auto simp: car_ok_def)
  let ?c1 = "c\<lparr>car_path := p\<rparr>"
  show ?thesis
  proof (cases "p \<noteq> [] \<and> length p > 1")
    case short: False
    have "\<forall>acc. traffic_car pq g c acc = Some (?c1, fst acc + 0, snd acc + 0)"
      using \<open>\<not> completed c\<close> p short by (cases "p = []") (simp_all add: traffic_car_def Let_def)
    moreover have "car_ok c \<longrightarrow> car_ok ?c1" using stuck0 short by (auto simp: car_ok_def)
    ultimately show ?thesis by (intro exI[of _ ?c1] exI[of _ 0]) simp
  next
    case long: True
    show ?thesis
    proof (cases "can_move_to g (p ! 1)")
      case blocked: False
      let ?c2 = "?c1\<lparr>stuck_time := stuck_time c + 1\<rparr>"
      let ?d = "if stuck_time c + 1 > 10 then 1 else (0::int)"
      have "\<forall>acc. traffic_car pq g c acc = Some (?c2, fst acc + 0, snd acc + ?d)"
        using False p long blocked by (simp add: traffic_car_def Let_def)
      moreover have "car_ok c \<longrightarrow> car_ok ?c2" using long by (auto simp: car_ok_def)
      ultimately show ?thesis by (intro exI[of _ ?c2] exI[of _ 0] exI[of _ ?d]) simp
    next
      case free: True
      let ?c2 = "?c1\<lparr>car_position := p ! 1, car_path := tl p, stuck_time := 0\<rparr>"
      show ?thesis
      proof (cases "p ! 1 = car_destination c")
        case True
        have "\<forall>acc. traffic_car pq g c acc = Some (?c2\<lparr>completed := True\<rparr>, fst acc + 1, snd acc + 0)"
          using False p long free True by (simp add: traffic_car_def Let_def)
        moreover have "car_ok c \<longrightarrow> car_ok (?c2\<lparr>completed := True\<rparr>)" by (auto simp: car_ok_def)
        ultimately show ?thesis by (intro exI[of _ "?c2\<lparr>completed := True\<rparr>"] exI[of _ 1] exI[of _ 0]) simp
      next
        case False
        have "\<forall>acc. traffic_car pq g c acc = Some (?c2, fst acc + 0, snd acc + 0)"
          using \<open>\<not> completed c\<close> p long free False by (simp add: traffic_car_def Let_def)
        moreover have "car_ok c \<longrightarrow> car_ok ?c2" by (auto simp: car_ok_def)
        ultimately show ?thesis by (intro exI[of _ ?c2] exI[of _ 0]) simp
      qed
    qed
  qed
qed

lemma traffic_loop_shape:
  "\<exists>cs' ds dp. (\<forall>acc. traffic_loop pq g cs acc = Some (cs', fst acc + ds, snd acc + dp)) \<and>
               (list_all car_ok cs \<longrightarrow> list_all car_ok cs') \<and> 0 \<le> dp \<and> 0 \<le> ds"
proof (induction cs)
  case Nil
  have "\<forall>acc. traffic_loop pq g [] acc = Some ([], fst acc + 0, snd acc + 0)" by simp
  then show ?case by (intro exI[of _ "[]"] exI[of _ 0]) simp
next
  case (Cons c cs)
  from traffic_car_shape[of pq g c] obtain c' ds1 dp1 where
    c: "\<And>acc. traffic_car pq g c acc = Some (c', fst acc + ds1, snd acc + dp1)"
    and ok1: "car_ok c \<longrightarrow> car_ok c'" and nn1: "0 \<le> dp1" "0 \<le> ds1" by blast
  from Cons obtain cs' ds2 dp2 where
    cs: "\<And>acc. traffic_loop pq g cs acc = Some (cs', fst acc + ds2, snd acc + dp2)"
    and ok2: "list_all car_ok cs \<longrightarrow> list_all car_ok cs'" and nn2: "0 \<le> dp2" "0 \<le> ds2" by blast
  have "\<forall>acc. traffic_loop pq g (c # cs) acc = Some (c' # cs', fst acc + (ds1 + ds2), snd acc + (dp1 + dp2))"
    by (simp add: c cs)
  then show ?case using ok1 ok2 nn1 nn2
    by (intro exI[of _ "c' # cs'"] exI[of _ "ds1 + ds2"] exI[of _ "dp1 + dp2"]) simp
qed

lemma traffic_loop_append:
  "traffic_loop pq g (xs @ ys) acc =
     (case traffic_loop pq g xs acc of
        None \<Rightarrow> None
      | Some (xs', acc') \<Rightarrow>
          (case traffic_loop pq g ys acc' of
             None \<Rightarrow> None
           | Some (ys', acc'') \<Rightarrow> Some (xs' @ ys', acc'')))"
  by (induction xs arbitrary: acc) (auto split: option.splits)

lemma simulate_traffic_returns:
  "\<exists>s'. simulate_traffic pq s = Some s' \<and> grid s' = grid s \<and> resources s' = resources s \<and>
        buildings s' = buildings s \<and> current_step s' = current_step s \<and> rng s' = rng s \<and>
        game_over s' = game_over s \<and> score s \<le> score s' \<and>
        congestion_penalty s \<le> congestion_penalty s' \<and>
        (list_all car_ok (cars s) \<longrightarrow> list_all car_ok (cars s'))"
proof -
  from traffic_loop_shape[of pq "grid s" "cars s"] obtain cs' ds dp where
    l: "\<And>acc. traffic_loop pq (grid s) (cars s) acc = Some (cs', fst acc + ds, snd acc + dp)"
    and ok: "list_all car_ok (cars s) \<longrightarrow> list_all car_ok cs'" and nn: "0 \<le> dp" "0 \<le> ds" by blast
  have "list_all car_ok cs' \<Longrightarrow> list_all car_ok (filter (\<lambda>c. \<not> completed c) cs')"
    by (simp add: list_all_iff)
  then show ?thesis using ok nn by (simp add: simulate_traffic_def l)
qed

lemma simulate_traffic_split:
  assumes cs: "cars s = pre @ c # post"
    and c: "\<And>acc. traffic_car pq (grid s) c acc = Some (c', fst acc, snd acc + d)"
    and nc: "\<not> completed c'"
  shows "\<exists>s0 s' pre' post'.
           simulate_traffic pq (s\<lparr>cars := pre @ post\<rparr>) = Some s0 \<and>
           simulate_traffic pq s = Some s' \<and>
           cars s0 = pre' @ post' \<and>
           cars s' = pre' @ c' # post' \<and>
           score s' = score s0 \<and>
           congestion_penalty s' = congestion_penalty s0 + d"
proof -
  let ?g = "grid s"
  from traffic_loop_shape[of pq ?g pre] obtain pre' ds1 dp1 where
    p1: "\<And>acc. traffic_loop pq ?g pre acc = Some (pre', fst acc + ds1, snd acc + dp1)" by blast
  from traffic_loop_shape[of pq ?g post] obtain post' ds2 dp2 where
    p2: "\<And>acc. traffic_loop pq ?g post acc = Some (post', fst acc + ds2, snd acc + dp2)" by blast
  have a: "traffic_loop pq ?g (pre @ post) acc = Some (pre' @ post', fst acc + ds1 + ds2, snd acc + dp1 + dp2)" for acc
    by (simp add: traffic_loop_append p1 p2)
  have b: "traffic_loop pq ?g (pre @ c # post) acc =
           Some (pre' @ c' # post', fst acc + ds1 + ds2, snd acc + dp1 + d + dp2)" for acc
    by (simp add: traffic_loop_append p1 p2 c)
  let ?f = "filter (\<lambda>c. \<not> completed c)"
  let ?s0 = "s\<lparr>cars := ?f pre' @ ?f post', score := score s + ds1 + ds2,
                  congestion_penalty := congestion_penalty s + dp1 + dp2\<rparr>"
  let ?s' = "s\<lparr>cars := ?f pre' @ c' # ?f post', score := score s + ds1 + ds2,
                  congestion_penalty := congestion_penalty s + dp1 + d + dp2\<rparr>"
  have 1: "simulate_traffic pq (s\<lparr>cars := pre @ post\<rparr>) = Some ?s0"
    by (simp add: simulate_traffic_def a)
  have 2: "simulate_traffic pq s = Some ?s'"
    using nc by (simp add: simulate_traffic_def cs b)
  have "simulate_traffic pq (s\<lparr>cars := pre @ post\<rparr>) = Some ?s0 \<and>
        simulate_traffic pq s = Some ?s' \<and>
        cars ?s0 = ?f pre' @ ?f post' \<and> cars ?s' = ?f pre' @ c' # ?f post' \<and>
        score ?s' = score ?s0 \<and> congestion_penalty ?s' = congestion_penalty ?s0 + d"
    using 1 2 by simp
  then show ?thesis by blast
qed

lemma spawn_frame_refl: "spawn_frame s s"
  by (simp add: spawn_frame_def)

lemma spawn_frame_trans: "spawn_frame s s' \<Longrightarrow> spawn_frame s' s'' \<Longrightarrow> spawn_frame s s''"
  by (simp add: spawn_frame_def)

lemma spawn_from_frame:
  assumes i: "i < length (buildings s)"
  shows "spawn_frame s (spawn_from i s)"
proof -
  let ?b = "buildings s ! i"
  let ?r = "snd (spawn_roll (rng s))"
  let ?P = "\<lambda>business. b_type business = BUSINESS \<and> b_color business = b_color ?b"
  show ?thesis
  proof (cases "b_type ?b = HOUSE \<and> cars_spawned ?b < max_cars ?b \<and> fst (spawn_roll (rng s))")
    case False
    then have "spawn_from i s = s \<or> spawn_from i s = s\<lparr>rng := ?r\<rparr>"
      by (auto simp: spawn_from_def Let_def case_prod_beta)
    then show ?thesis by (auto simp: spawn_frame_def)
  next
    case True
    show ?thesis
    proof (cases "find ?P (buildings s)")
      case None
      then have "spawn_from i s = s\<lparr>rng := ?r\<rparr>"
        using True by (simp add: spawn_from_def Let_def case_prod_beta)
      then show ?thesis by (simp add: spawn_frame_def)
    next
      case (Some business)
      let ?c = "new_car (b_position ?b) (b_position business) (b_color ?b)"
      let ?b' = "?b\<lparr>cars_spawned := cars_spawned ?b + 1\<rparr>"
      have eq: "spawn_from i s = s\<lparr>rng := ?r, cars := cars s @ [?c], buildings := (buildings s)[i := ?b']\<rparr>"
        using True Some by (simp add: spawn_from_def Let_def case_prod_beta)
      have bus: "business \<in> set (buildings s)" "b_type business = BUSINESS" "b_color business = b_color ?b"
        using Some by (auto simp: find_Some_iff)
      have kc: "map kind_color ((buildings s)[i := ?b']) = map kind_color (buildings s)"
        by (simp add: map_update kind_color_def list_update_same_conv i)
      have ok: "list_all car_ok (cars s @ [?c]) \<and> list_all building_ok ((buildings s)[i := ?b'])"
        if h: "list_all car_ok (cars s)" "list_all building_ok (buildings s)"
      proof -
        have "building_ok business" using h(2) bus(1) by (simp add: list_all_iff)
        then have col: "b_color ?b = RED \<or> b_color ?b = BLUE" using bus by (auto simp: building_ok_def)
        then have "car_ok ?c" by (simp add: car_ok_def new_car_def)
        moreover have "building_ok ?b'" using True col by (auto simp: building_ok_def)
        moreover have "set ((buildings s)[i := ?b']) \<subseteq> insert ?b' (set (buildings s))"
          by (rule set_update_subset_insert)
        ultimately show ?thesis using h by (auto simp: list_all_iff)
      qed
      show ?thesis unfolding eq spawn_frame_def using kc ok by simp
    qed
  qed
qed

lemma spawn_frame_length: "spawn_frame s s' \<Longrightarrow> length (buildings s') = length (buildings s)"
  unfolding spawn_frame_def by (metis length_map)

lemma fold_spawn_frame:
  assumes "\<forall>i \<in> set js. i < length (buildings s)"
  shows "spawn_frame s (fold spawn_from js s)"
  using assms
proof (induction js arbitrary: s)
  case Nil
  then show ?case by (simp add: spawn_frame_refl)
next
  case (Cons j js)
  have 1: "spawn_frame s (spawn_from j s)" using Cons.prems by (simp add: spawn_from_frame)
  have "\<forall>i \<in> set js. i < length (buildings (spawn_from j s))"
    using Cons.prems spawn_frame_length[OF 1] by simp
  from Cons.IH[OF this] show ?case using 1 spawn_frame_trans by simp
qed

lemma spawn_cars_frame: "spawn_frame s (spawn_cars s)"
  unfolding spawn_cars_def using fold_spawn_frame[of "[0..<length (buildings s)]" s]
  by (simp add: spawn_frame_refl)

text \<open>Initial buildings\<close>

lemma find_empty_attempts_result:
  "fst (find_empty_attempts n g r) = Position (- 1) (- 1) \<or>
   is_valid_position (fst (find_empty_attempts n g r))"
proof (induction n arbitrary: r)
  case 0
  then show ?case by simp
next
  case (Suc n)
  show ?case using Suc[of "snd (position_dist_y (snd (position_dist_x r)))"]
    by (auto simp: Let_def position_dist_x_def position_dist_y_def is_valid_position_def
        GRID_WIDTH_def GRID_HEIGHT_def split: prod.splits)
qed

lemma spawn_building_effect:
  "build_frame s (spawn_building t col s) \<and>
   (\<exists>p. buildings (spawn_building t col s) = buildings s @ [new_building p col t] \<or>
        buildings (spawn_building t col s) = buildings s)"
  by (auto simp: spawn_building_def find_empty_position_def Let_def build_frame_def grid_ok_set_tile
      split: prod.splits)

lemma spawn_initial_buildings_unfold:
  "spawn_initial_buildings s =
     spawn_building BUSINESS BLUE (spawn_building BUSINESS RED
       (spawn_building HOUSE GREEN (spawn_building HOUSE BLUE (spawn_building HOUSE RED s))))"
  by (simp add: spawn_initial_buildings_def Let_def upt_rec numeral_3_eq_3 numeral_2_eq_2)

lemma spawn_building_kinds:
  assumes "list_all building_ok (buildings s)" "subseq (map kind_color (buildings s)) xs"
    and "t = BUSINESS \<longrightarrow> col = RED \<or> col = BLUE"
  shows "list_all building_ok (buildings (spawn_building t col s)) \<and>
         subseq (map kind_color (buildings (spawn_building t col s))) (xs @ [(t, col)])"
proof -
  from spawn_building_effect[of s t col] obtain p where
    "buildings (spawn_building t col s) = buildings s @ [new_building p col t] \<or>
     buildings (spawn_building t col s) = buildings s" by blast
  then show ?thesis
  proof
    assume e: "buildings (spawn_building t col s) = buildings s @ [new_building p col t]"
    have "building_ok (new_building p col t)" using assms(3) by (simp add: building_ok_def new_building_def)
    moreover have "subseq (map kind_color (buildings s) @ [(t, col)]) (xs @ [(t, col)])"
      using assms(2) by simp
    ultimately show ?thesis using assms(1) e by (simp add: kind_color_def new_building_def)
  next
    assume e: "buildings (spawn_building t col s) = buildings s"
    have "subseq (map kind_color (buildings s)) (xs @ [(t, col)])"
      using assms(2) by (rule list_emb_prefix)
    then show ?thesis using assms(1) e by simp
  qed
qed

lemma build_frame_trans: "build_frame s s' \<Longrightarrow> build_frame s' s'' \<Longrightarrow> build_frame s s''"
  by (simp add: build_frame_def)

lemma spawn_initial_buildings_inv:
  assumes "buildings s = []"
  shows "build_frame s (spawn_initial_buildings s) \<and>
         list_all building_ok (buildings (spawn_initial_buildings s)) \<and>
         subseq (map kind_color (buildings (spawn_initial_buildings s))) initial_buildings"
proof -
  let ?s1 = "spawn_building HOUSE RED s"
  let ?s2 = "spawn_building HOUSE BLUE ?s1"
  let ?s3 = "spawn_building HOUSE GREEN ?s2"
  let ?s4 = "spawn_building BUSINESS RED ?s3"
  let ?s5 = "spawn_building BUSINESS BLUE ?s4"
  have f: "build_frame s ?s5"
    using spawn_building_effect[of s HOUSE RED] spawn_building_effect[of ?s1 HOUSE BLUE]
      spawn_building_effect[of ?s2 HOUSE GREEN] spawn_building_effect[of ?s3 BUSINESS RED]
      spawn_building_effect[of ?s4 BUSINESS BLUE]
    by (meson build_frame_trans)
  have 0: "list_all building_ok (buildings s)" "subseq (map kind_color (buildings s)) []"
    using assms by simp_all
  have 1: "list_all building_ok (buildings ?s1) \<and> subseq (map kind_color (buildings ?s1)) ([] @ [(HOUSE, RED)])"
    by (rule spawn_building_kinds[OF 0]) simp
  have 2: "list_all building_ok (buildings ?s2) \<and>
           subseq (map kind_color (buildings ?s2)) (([] @ [(HOUSE, RED)]) @ [(HOUSE, BLUE)])"
    by (rule spawn_building_kinds) (use 1 in simp_all)
  have 3: "list_all building_ok (buildings ?s3) \<and>
           subseq (map kind_color (buildings ?s3)) ((([] @ [(HOUSE, RED)]) @ [(HOUSE, BLUE)]) @ [(HOUSE, GREEN)])"
    by (rule spawn_building_kinds) (use 2 in simp_all)
  have 4: "list_all building_ok (buildings ?s4) \<and>
           subseq (map kind_color (buildings ?s4))
             (((([] @ [(HOUSE, RED)]) @ [(HOUSE, BLUE)]) @ [(HOUSE, GREEN)]) @ [(BUSINESS, RED)])"
    by (rule spawn_building_kinds) (use 3 in simp_all)
  have 5: "list_all building_ok (buildings ?s5) \<and>
           subseq (map kind_color (buildings ?s5))
             ((((([] @ [(HOUSE, RED)]) @ [(HOUSE, BLUE)]) @ [(HOUSE, GREEN)]) @ [(BUSINESS, RED)]) @ [(BUSINESS, BLUE)])"
    by (rule spawn_building_kinds) (use 4 in simp_all)
  show ?thesis unfolding spawn_initial_buildings_unfold using f 5 by (simp add: initial_buildings_def)
qed

text \<open>Observation\<close>

lemma length_cells: "length cells = 400"
  by (simp add: cells_def GRID_WIDTH_def GRID_HEIGHT_def length_concat comp_def sum_list_triv)

lemma get_observation_length:
  assumes "ledger_ok (resources s)"
  shows "\<exists>obs. get_observation s = Some obs \<and> length obs = 810"
proof -
  have k: "''roads'' \<in> set resource_keys" "''motorways'' \<in> set resource_keys"
    "''bridges'' \<in> set resource_keys" "''roundabouts'' \<in> set resource_keys"
    "''traffic_lights'' \<in> set resource_keys" "''upgrades'' \<in> set resource_keys"
    by (simp_all add: resource_keys_def)
  show ?thesis
    unfolding get_observation_def Let_def
    by (simp add: res_at_ok[OF assms] k length_cells)
qed

text \<open>Termination test\<close>

lemma check_game_over_iff:
  assumes "ledger_ok (resources s)"
  shows "check_game_over s \<longleftrightarrow> terminal_condition s"
  unfolding check_game_over_def terminal_condition_def Let_def MAX_STEPS_def
  by (simp add: ledger_sum[OF assms])

lemma terminal_condition_flag [simp]: "terminal_condition (s\<lparr>game_over := b\<rparr>) = terminal_condition s"
  by (simp add: terminal_condition_def)

text \<open>The invariant through one step\<close>

lemma env_inv_action:
  assumes "env_inv s" "execute_action s t x y = (b, s')"
  shows "env_inv s'"
proof -
  have "action_inv s" using assms(1) by (simp add: env_inv_def action_inv_def)
  from execute_action_inv[OF this assms(2)] show ?thesis
    using assms(1) by (simp add: env_inv_def action_inv_def)
qed

lemma env_inv_after_action: "env_inv s \<Longrightarrow> env_inv (after_action s a)"
proof -
  assume i: "env_inv s"
  let ?s1 = "s\<lparr>current_step := current_step s + 1\<rparr>"
  have 1: "env_inv ?s1" using i by (simp add: env_inv_def)
  show ?thesis
  proof (cases "a ! 0 < 6")
    case True
    then show ?thesis
      using env_inv_action[OF 1, of "a ! 0" "a ! 1" "a ! 2" "fst (execute_action ?s1 (a ! 0) (a ! 1) (a ! 2))"
          "snd (execute_action ?s1 (a ! 0) (a ! 1) (a ! 2))"]
      by (simp add: after_action_def)
  next
    case False
    then show ?thesis using 1 by (simp add: after_action_def)
  qed
qed

lemma env_inv_traffic: "env_inv s \<Longrightarrow> simulate_traffic pq s = Some s' \<Longrightarrow> env_inv s'"
  using simulate_traffic_returns[of pq s] by (auto simp: env_inv_def)

lemma env_inv_spawn: "env_inv s \<Longrightarrow> env_inv (spawn_cars s)"
  using spawn_cars_frame[of s] by (simp add: env_inv_def spawn_frame_def)

lemma env_inv_close_step: "env_inv s \<Longrightarrow> env_inv (close_step s)"
  using env_inv_spawn[of s] by (simp add: close_step_def env_inv_def)

lemma step_halted:
  "game_over s \<or> length a \<noteq> 3 \<Longrightarrow> step pq s a = map_option (\<lambda>obs. (obs, s)) (get_observation s)"
  by (simp add: step_def)

lemma step_run:
  assumes "\<not> game_over s" "length a = 3"
  shows "\<exists>s3. simulate_traffic pq (after_action s a) = Some s3 \<and>
              step pq s a = map_option (\<lambda>obs. (obs, close_step s3)) (get_observation (close_step s3))"
proof -
  from simulate_traffic_returns[of pq "after_action s a"] obtain s3 where
    s3: "simulate_traffic pq (after_action s a) = Some s3" by blast
  have "step pq s a = map_option (\<lambda>obs. (obs, close_step s3)) (get_observation (close_step s3))"
    using assms s3 by (simp add: step_def Let_def after_action_def close_step_def)
  then show ?thesis using s3 by blast
qed

lemma step_effect:
  assumes "env_inv s"
  shows "\<exists>obs s'. step pq s a = Some (obs, s') \<and> length obs = 810 \<and> env_inv s'"
proof (cases "game_over s \<or> length a \<noteq> 3")
  case True
  from get_observation_length[of s] assms obtain obs where "get_observation s = Some obs" "length obs = 810"
    by (auto simp: env_inv_def)
  then show ?thesis using step_halted[OF True, of pq] assms by simp
next
  case False
  then obtain s3 where s3: "simulate_traffic pq (after_action s a) = Some s3"
    "step pq s a = map_option (\<lambda>obs. (obs, close_step s3)) (get_observation (close_step s3))"
    using step_run[of s a pq] by auto
  have i: "env_inv (close_step s3)"
    using env_inv_close_step env_inv_traffic[OF env_inv_after_action[OF assms] s3(1)] by blast
  then obtain obs where "get_observation (close_step s3) = Some obs" "length obs = 810"
    using get_observation_length[of "close_step s3"] by (auto simp: env_inv_def)
  then show ?thesis using s3(2) i by simp
qed

text \<open>Reset\<close>

lemma reset_unfold:
  "reset s = map_option (\<lambda>obs. (obs, reset_state s)) (get_observation (reset_state s))"
  by (simp add: reset_def reset_state_def Let_def)

lemma reset_state_inv:
  assumes "ledger_ok (resources s)"
  shows "env_inv (reset_state s)"
proof -
  let ?s0 = "s\<lparr>grid := empty_grid, cars := [], buildings := [], score := 0, current_step := 0,
          game_over := False, congestion_penalty := 0,
          resources := initial_resources (resources s)\<rparr>"
  have b: "buildings ?s0 = []" by simp
  from spawn_initial_buildings_inv[OF b] have
    f: "build_frame ?s0 (reset_state s)"
    and k: "list_all building_ok (buildings (reset_state s))"
      "subseq (map kind_color (buildings (reset_state s))) initial_buildings"
    by (simp_all add: reset_state_def)
  show ?thesis unfolding env_inv_def
    using f k initial_resources_ok[OF assms] initial_resources_nonneg[of "resources s"] grid_ok_empty
    by (simp add: build_frame_def)
qed

lemma reset_effect:
  assumes "ledger_ok (resources s)"
  shows "\<exists>obs. reset s = Some (obs, reset_state s) \<and> length obs = 810"
proof -
  have "ledger_ok (resources (reset_state s))" using reset_state_inv[OF assms] by (simp add: env_inv_def)
  from get_observation_length[OF this] show ?thesis by (auto simp: reset_unfold)
qed

lemma env_inv_new: "env_inv (new_env r)"
  by (simp add: env_inv_def new_env_def grid_ok_empty initial_resources_new initial_resources_nonneg)

lemma reachable_inv: "reachable pq s \<Longrightarrow> env_inv s"
proof (induction rule: reachable.induct)
  case (reach_new r)
  show ?case by (rule env_inv_new)
next
  case (reach_reset s obs s')
  then have "ledger_ok (resources s)" by (simp add: env_inv_def)
  then show ?case using reach_reset(2) reset_state_inv[of s] by (auto simp: reset_unfold)
next
  case (reach_step s a obs s')
  from step_effect[OF reach_step(3), of pq a] reach_step(2) show ?case by auto
next
  case (reach_action s t x y b s')
  then show ?case using env_inv_action by blast
next
  case (reach_traffic s s')
  then show ?case using env_inv_traffic by blast
next
  case (reach_spawn s)
  then show ?case using env_inv_spawn by blast
qed

text \<open>The ledger keeps its six entries through an action, so every step returns.\<close>

lemma place_ledger:
  assumes "ledger_ok (resources s)" "k \<in> set resource_keys"
  shows "ledger_ok (resources (snd (place k t0 t1 s x y)))"
  using assms by (simp add: place_def Let_def res_touch_ok res_set_ok)

lemma remove_ledger:
  assumes "ledger_ok (resources s)"
  shows "ledger_ok (resources (snd (remove_infrastructure s x y)))"
proof -
  have "''roads'' \<in> set resource_keys" "''motorways'' \<in> set resource_keys"
    by (simp_all add: resource_keys_def)
  then show ?thesis using assms by (simp add: remove_infrastructure_def Let_def res_set_ok)
qed

lemma execute_action_ledger:
  assumes "ledger_ok (resources s)"
  shows "ledger_ok (resources (snd (execute_action s t x y)))"
proof -
  have keys: "''roads'' \<in> set resource_keys" "''motorways'' \<in> set resource_keys"
    "''bridges'' \<in> set resource_keys" "''roundabouts'' \<in> set resource_keys"
    "''traffic_lights'' \<in> set resource_keys" by (simp_all add: resource_keys_def)
  show ?thesis unfolding execute_action_def
    using assms place_ledger[OF assms] remove_ledger[OF assms] keys by simp
qed

lemma after_action_ledger: "ledger_ok (resources s) \<Longrightarrow> ledger_ok (resources (after_action s a))"
  using execute_action_ledger[of "s\<lparr>current_step := current_step s + 1\<rparr>"]
  by (simp add: after_action_def)

lemma step_returns:
  assumes "ledger_ok (resources s)"
  shows "\<exists>obs s'. step pq s a = Some (obs, s')"
proof (cases "game_over s \<or> length a \<noteq> 3")
  case True
  from get_observation_length[OF assms] show ?thesis using step_halted[OF True, of pq] by auto
next
  case False
  then obtain s3 where s3: "simulate_traffic pq (after_action s a) = Some s3"
    "step pq s a = map_option (\<lambda>obs. (obs, close_step s3)) (get_observation (close_step s3))"
    using step_run[of s a pq] by auto
  have "resources s3 = resources (after_action s a)"
    using simulate_traffic_returns[of pq "after_action s a"] s3(1) by auto
  moreover have "resources (close_step s3) = resources s3"
    using spawn_cars_frame[of s3] by (simp add: close_step_def spawn_frame_def)
  ultimately have "ledger_ok (resources (close_step s3))" using after_action_ledger[OF assms] by simp
  from get_observation_length[OF this] show ?thesis using s3(2) by auto
qed

text \<open>
  Claim C2. In every state whose ledger holds the six resource counts, reached or not, the
  termination evaluator \<^verbatim>\<open>check_game_over\<close> reports terminal exactly when more than 10
  active vehicles have a stuck duration above 20, or the six resource counts sum to 0 and
  more than 15 vehicles are active, or the step counter is at least 1000; and the flag that
  a full step leaves, computed after movement and spawning, is this condition on the state
  the step returns.
\<close>

theorem terminal_iff:
  assumes "ledger_ok (resources s)"
  shows "(check_game_over s \<longleftrightarrow> terminal_condition s) \<and>
         (\<forall>a obs s'. \<not> game_over s \<and> length a = 3 \<and> step pq s a = Some (obs, s') \<longrightarrow>
            (game_over s' \<longleftrightarrow> terminal_condition s'))"
proof -
  have 1: "check_game_over s \<longleftrightarrow> terminal_condition s"
    using assms by (rule check_game_over_iff)
  have 2: "game_over s' \<longleftrightarrow> terminal_condition s'"
    if h: "\<not> game_over s" "length a = 3" "step pq s a = Some (obs, s')" for a obs s'
  proof -
    from step_run[OF h(1,2), of pq] obtain s3 where s3: "simulate_traffic pq (after_action s a) = Some s3"
      "step pq s a = map_option (\<lambda>obs. (obs, close_step s3)) (get_observation (close_step s3))" by blast
    then have e: "s' = close_step s3" using h(3) by (cases "get_observation (close_step s3)") auto
    have "resources s3 = resources (after_action s a)"
      using simulate_traffic_returns[of pq "after_action s a"] s3(1) by auto
    moreover have "resources (spawn_cars s3) = resources s3"
      using spawn_cars_frame[of s3] by (simp add: spawn_frame_def)
    ultimately have "ledger_ok (resources (spawn_cars s3))" using after_action_ledger[OF assms] by simp
    then have "check_game_over (spawn_cars s3) \<longleftrightarrow> terminal_condition (spawn_cars s3)"
      by (rule check_game_over_iff)
    then show ?thesis unfolding e close_step_def by simp
  qed
  show ?thesis using 1 2 by blast
qed

text \<open>
  Each threshold at its edge: 11 vehicles stuck for 21 steps are terminal, 10 such vehicles
  or 11 stuck for 20 steps are not; 16 vehicles with an empty ledger are terminal, 15 are
  not, and neither are 16 with the initial ledger. A step that takes 11 vehicles from 20 to
  21 sets the flag.
\<close>

theorem terminal_iff_witness:
  "ledger_ok (resources (stuck_fleet 11 21)) \<and>
   check_game_over (stuck_fleet 11 21) \<and>
   \<not> check_game_over (stuck_fleet 10 21) \<and>
   \<not> check_game_over (stuck_fleet 11 20) \<and>
   check_game_over (spent_fleet 16) \<and>
   \<not> check_game_over (spent_fleet 15) \<and>
   \<not> check_game_over ((spent_fleet 16)\<lparr>resources := resources (new_env zero_rng)\<rparr>) \<and>
   (\<exists>obs s'. \<not> game_over (stuck_fleet 11 20) \<and> length [6, 0, 0 :: int] = 3 \<and>
      step first_pq (stuck_fleet 11 20) [6, 0, 0] = Some (obs, s') \<and>
      game_over s' \<and> current_step s' = 1)"
proof -
  have l1: "ledger_ok (resources (stuck_fleet n d))" for n d
    by (simp add: stuck_fleet_def new_env_def initial_resources_new)
  have l2: "ledger_ok (resources (spent_fleet n))" for n
    by (simp add: spent_fleet_def ledger_ok_def comp_def)
  have l3: "ledger_ok (resources ((spent_fleet 16)\<lparr>resources := resources (new_env zero_rng)\<rparr>))"
    by (simp add: new_env_def initial_resources_new)
  have t1: "terminal_condition (stuck_fleet 11 21)" by code_simp
  have t2: "\<not> terminal_condition (stuck_fleet 10 21)" by code_simp
  have t3: "\<not> terminal_condition (stuck_fleet 11 20)" by code_simp
  have t4: "terminal_condition (spent_fleet 16)" by code_simp
  have t5: "\<not> terminal_condition (spent_fleet 15)" by code_simp
  have t6: "\<not> terminal_condition ((spent_fleet 16)\<lparr>resources := resources (new_env zero_rng)\<rparr>)"
    by code_simp
  have c: "check_game_over (stuck_fleet 11 21)" "\<not> check_game_over (stuck_fleet 10 21)"
    "\<not> check_game_over (stuck_fleet 11 20)" "check_game_over (spent_fleet 16)"
    "\<not> check_game_over (spent_fleet 15)"
    "\<not> check_game_over ((spent_fleet 16)\<lparr>resources := resources (new_env zero_rng)\<rparr>)"
    using terminal_iff[OF l1[of 11 21], of first_pq] terminal_iff[OF l1[of 10 21], of first_pq]
      terminal_iff[OF l1[of 11 20], of first_pq] terminal_iff[OF l2[of 16], of first_pq]
      terminal_iff[OF l2[of 15], of first_pq] terminal_iff[OF l3, of first_pq] t1 t2 t3 t4 t5 t6
    by blast+
  have g: "\<not> game_over (stuck_fleet 11 20)" by (simp add: stuck_fleet_def new_env_def)
  from step_returns[OF l1[of 11 20], of first_pq "[6, 0, 0]"] obtain obs s' where
    s: "step first_pq (stuck_fleet 11 20) [6, 0, 0] = Some (obs, s')" by blast
  have "map_option (\<lambda>r. (terminal_condition (snd r), current_step (snd r)))
          (step first_pq (stuck_fleet 11 20) [6, 0, 0]) = Some (True, 1)"
    by code_simp
  then have ts: "terminal_condition s'" "current_step s' = 1" using s by simp_all
  have "game_over s'"
    using terminal_iff[OF l1[of 11 20], of first_pq] g s ts(1) by (metis length_Cons list.size(3) numeral_3_eq_3)
  then show ?thesis using l1 c g s ts(2) by auto
qed

text \<open>
  Claim C3. In every state reached from the constructed environment by resets, steps and
  direct calls of \<^verbatim>\<open>execute_action\<close>, each of the six resource counts is non-negative, and
  a call of \<^verbatim>\<open>execute_action\<close> that returns false leaves the whole state, so every
  resource count and every grid cell, unchanged.
\<close>

theorem ledger_never_negative:
  assumes "reachable pq s"
  shows "0 \<le> res_get ''roads'' (resources s) \<and> 0 \<le> res_get ''motorways'' (resources s) \<and>
         0 \<le> res_get ''bridges'' (resources s) \<and> 0 \<le> res_get ''roundabouts'' (resources s) \<and>
         0 \<le> res_get ''traffic_lights'' (resources s) \<and> 0 \<le> res_get ''upgrades'' (resources s) \<and>
         (\<forall>t x y s'. execute_action s t x y = (False, s') \<longrightarrow> s' = s)"
proof -
  have i: "env_inv s" using assms by (rule reachable_inv)
  then have "list_all (\<lambda>k. 0 \<le> res_get k (resources s)) resource_keys" by (simp add: env_inv_def)
  moreover have "ledger_ok (resources s)" using i by (simp add: env_inv_def)
  ultimately show ?thesis using execute_action_fail[of s] by (simp add: resource_keys_def)
qed

text \<open>A traffic light on an empty cell of the constructed environment is refused.\<close>

theorem ledger_never_negative_witness:
  "reachable first_pq (new_env zero_rng) \<and>
   0 \<le> res_get ''roads'' (resources (new_env zero_rng)) \<and>
   fst (execute_action (new_env zero_rng) 4 0 0) = False \<and>
   snd (execute_action (new_env zero_rng) 4 0 0) = new_env zero_rng"
proof -
  have r: "reachable first_pq (new_env zero_rng)" by (rule reach_new)
  have f: "fst (execute_action (new_env zero_rng) 4 0 0) = False"
    by (simp add: execute_action_def is_valid_position_def GRID_WIDTH_def GRID_HEIGHT_def place_def
      new_env_def initial_resources_def res_set_def res_touch_def res_get_def Let_def tile_at_def empty_grid_def)
  then have "execute_action (new_env zero_rng) 4 0 0 = (False, snd (execute_action (new_env zero_rng) 4 0 0))"
    by (simp add: prod_eq_iff)
  then show ?thesis using r f ledger_never_negative[OF r] by blast
qed

text \<open>
  Claim C4. If the terminal flag is set or the action does not have exactly 3 elements,
  \<^verbatim>\<open>step\<close> returns the observation of the current state and leaves the state as it is:
  no action is executed, no vehicle moves, nothing is drawn from the engine, the flag and
  the step counter keep their values.
\<close>

theorem step_no_op:
  assumes "game_over s \<or> length a \<noteq> 3"
  shows "step pq s a = map_option (\<lambda>obs. (obs, s)) (get_observation s) \<and>
         (reachable pq s \<longrightarrow> (\<exists>obs. get_observation s = Some obs \<and> step pq s a = Some (obs, s)))"
proof -
  have 1: "step pq s a = map_option (\<lambda>obs. (obs, s)) (get_observation s)"
    using assms by (rule step_halted)
  have "\<exists>obs. get_observation s = Some obs \<and> step pq s a = Some (obs, s)" if "reachable pq s"
  proof -
    have "ledger_ok (resources s)" using reachable_inv[OF that] by (simp add: env_inv_def)
    from get_observation_length[OF this] show ?thesis using 1 by auto
  qed
  then show ?thesis using 1 by blast
qed

text \<open>An action with two elements.\<close>

theorem step_no_op_witness:
  "(game_over (new_env zero_rng) \<or> length [0, 1 :: int] \<noteq> 3) \<and> reachable first_pq (new_env zero_rng) \<and>
   (\<exists>obs. get_observation (new_env zero_rng) = Some obs \<and>
          step first_pq (new_env zero_rng) [0, 1] = Some (obs, new_env zero_rng))"
proof -
  have h: "game_over (new_env zero_rng) \<or> length [0, 1 :: int] \<noteq> 3" by simp
  have r: "reachable first_pq (new_env zero_rng)" by (rule reach_new)
  show ?thesis using h r step_no_op[OF h, of first_pq] by blast
qed

text \<open>
  Claim C6. In \<^verbatim>\<open>simulate_traffic\<close>, an active vehicle \<open>c\<close> that is not completed, whose
  route has at least two waypoints and whose second waypoint cannot be entered, stays in
  the collection with its stuck duration one higher and nothing else changed; compared
  with the same call without this vehicle (\<open>s0\<close>), the other vehicles and the score come
  out the same, and the congestion penalty is one higher exactly when the new stuck
  duration exceeds 10, on every such call.
\<close>

theorem stuck_car_penalised:
  assumes "cars s = pre @ c # post" and "\<not> completed c" and "2 \<le> length (car_path c)"
    and "\<not> can_move_to (grid s) (car_path c ! 1)"
  shows "\<exists>s0 s' pre' post'.
           simulate_traffic pq (s\<lparr>cars := pre @ post\<rparr>) = Some s0 \<and>
           simulate_traffic pq s = Some s' \<and>
           cars s0 = pre' @ post' \<and>
           cars s' = pre' @ c\<lparr>stuck_time := stuck_time c + 1\<rparr> # post' \<and>
           score s' = score s0 \<and>
           congestion_penalty s' = congestion_penalty s0 + (if stuck_time c + 1 > 10 then 1 else 0)"
proof (rule simulate_traffic_split[OF assms(1)])
  show "traffic_car pq (grid s) c acc =
        Some (c\<lparr>stuck_time := stuck_time c + 1\<rparr>, fst acc,
              snd acc + (if stuck_time c + 1 > 10 then 1 else 0))" for acc
    by (rule traffic_car_stuck[OF assms(2,3,4)])
  show "\<not> completed (c\<lparr>stuck_time := stuck_time c + 1\<rparr>)" using assms(2) by simp
qed

text \<open>A vehicle stuck for 10 steps before an empty cell: the penalty rises by 1.\<close>

theorem stuck_car_penalised_witness:
  "\<exists>s0 s' pre' post'.
     simulate_traffic first_pq ((new_env zero_rng)\<lparr>cars := [] @ []\<rparr>) = Some s0 \<and>
     simulate_traffic first_pq
       ((new_env zero_rng)\<lparr>cars := [waiting_car [Position 0 0, Position 1 0] 10]\<rparr>) = Some s' \<and>
     cars s0 = pre' @ post' \<and>
     cars s' = pre' @ waiting_car [Position 0 0, Position 1 0] 11 # post' \<and>
     score s' = score s0 \<and>
     congestion_penalty s' = congestion_penalty s0 + 1"
proof -
  let ?c = "waiting_car [Position 0 0, Position 1 0] 10"
  let ?s = "(new_env zero_rng)\<lparr>cars := [?c]\<rparr>"
  have 1: "cars ?s = [] @ ?c # []" by simp
  have 2: "\<not> completed ?c" by (simp add: waiting_car_def)
  have 3: "2 \<le> length (car_path ?c)" by (simp add: waiting_car_def)
  have 4: "\<not> can_move_to (grid ?s) (car_path ?c ! 1)"
    by (simp add: waiting_car_def can_move_to_def is_valid_position_def GRID_WIDTH_def GRID_HEIGHT_def
        new_env_def tile_at_def empty_grid_def)
  have 5: "?c\<lparr>stuck_time := 11\<rparr> = waiting_car [Position 0 0, Position 1 0] 11"
    by (simp add: waiting_car_def)
  have 6: "stuck_time ?c = 10" by (simp add: waiting_car_def)
  show ?thesis using stuck_car_penalised[OF 1 2 3 4, of first_pq] by (simp add: 5 6)
qed

text \<open>
  Claim C7. For a well-formed action \<open>[k, x, y]\<close> with \<open>k \<ge> 6\<close> in a non-terminal state,
  \<^verbatim>\<open>step\<close> skips the executor: it advances the step counter by 1, moves the traffic,
  spawns, evaluates termination, and the grid and the ledger of the state it returns are
  those it started from.
\<close>

theorem pass_action:
  assumes "\<not> game_over s" and "6 \<le> k"
  shows "\<exists>s3. simulate_traffic pq (s\<lparr>current_step := current_step s + 1\<rparr>) = Some s3 \<and>
              step pq s [k, x, y] =
                map_option (\<lambda>obs. (obs, close_step s3)) (get_observation (close_step s3)) \<and>
              grid (close_step s3) = grid s \<and> resources (close_step s3) = resources s \<and>
              current_step (close_step s3) = current_step s + 1 \<and>
              game_over (close_step s3) = check_game_over (spawn_cars s3) \<and>
              (reachable pq s \<longrightarrow> (\<exists>obs. step pq s [k, x, y] = Some (obs, close_step s3)))"
proof -
  have a: "after_action s [k, x, y] = s\<lparr>current_step := current_step s + 1\<rparr>"
    using assms(2) by (simp add: after_action_def)
  from step_run[OF assms(1), of "[k, x, y]" pq] obtain s3 where
    s3: "simulate_traffic pq (s\<lparr>current_step := current_step s + 1\<rparr>) = Some s3"
    "step pq s [k, x, y] = map_option (\<lambda>obs. (obs, close_step s3)) (get_observation (close_step s3))"
    unfolding a by auto
  from simulate_traffic_returns[of pq "s\<lparr>current_step := current_step s + 1\<rparr>"] s3(1)
  have f: "grid s3 = grid s" "resources s3 = resources s" "current_step s3 = current_step s + 1"
    by auto
  have g: "grid (close_step s3) = grid s" "resources (close_step s3) = resources s"
    "current_step (close_step s3) = current_step s + 1"
    "game_over (close_step s3) = check_game_over (spawn_cars s3)"
    using f spawn_cars_frame[of s3] by (simp_all add: close_step_def spawn_frame_def)
  have "\<exists>obs. step pq s [k, x, y] = Some (obs, close_step s3)" if "reachable pq s"
  proof -
    from step_effect[OF reachable_inv[OF that], of pq "[k, x, y]"] show ?thesis
      using s3(2) by auto
  qed
  then show ?thesis using s3 g by blast
qed

text \<open>The pass action in the constructed environment.\<close>

theorem pass_action_witness:
  "\<not> game_over (new_env zero_rng) \<and> (6::int) \<le> 6 \<and>
   (\<exists>s3 obs. simulate_traffic first_pq ((new_env zero_rng)\<lparr>current_step := current_step (new_env zero_rng) + 1\<rparr>) = Some s3 \<and>
      step first_pq (new_env zero_rng) [6, 2, 3] = Some (obs, close_step s3) \<and>
      grid (close_step s3) = grid (new_env zero_rng) \<and>
      resources (close_step s3) = resources (new_env zero_rng) \<and>
      current_step (close_step s3) = 1)"
proof -
  have g: "\<not> game_over (new_env zero_rng)" by (simp add: new_env_def)
  have k: "(6::int) \<le> 6" by simp
  have r: "reachable first_pq (new_env zero_rng)" by (rule reach_new)
  have c: "current_step (new_env zero_rng) = 0" by (simp add: new_env_def)
  from pass_action[OF g k, of first_pq 2 3] r show ?thesis using g c by auto
qed

text \<open>
  Claim C8. In every reached state, \<^verbatim>\<open>reset\<close> and \<^verbatim>\<open>step\<close> (with any action) return, and
  the observation they return has length 810.
\<close>

theorem observation_length:
  assumes "reachable pq s"
  shows "(\<exists>obs s'. reset s = Some (obs, s') \<and> length obs = 810) \<and>
         (\<forall>a. \<exists>obs s'. step pq s a = Some (obs, s') \<and> length obs = 810)"
proof -
  have i: "env_inv s" using assms by (rule reachable_inv)
  then have "ledger_ok (resources s)" by (simp add: env_inv_def)
  from reset_effect[OF this] have 1: "\<exists>obs s'. reset s = Some (obs, s') \<and> length obs = 810" by blast
  have 2: "\<exists>obs s'. step pq s a = Some (obs, s') \<and> length obs = 810" for a
    using step_effect[OF i, of pq a] by blast
  show ?thesis using 1 2 by blast
qed

text \<open>The constructed environment.\<close>

theorem observation_length_witness:
  "reachable first_pq (new_env zero_rng) \<and>
   (\<exists>obs s'. reset (new_env zero_rng) = Some (obs, s') \<and> length obs = 810) \<and>
   (\<exists>obs s'. step first_pq (new_env zero_rng) [0, 1, 1] = Some (obs, s') \<and> length obs = 810)"
proof -
  have r: "reachable first_pq (new_env zero_rng)" by (rule reach_new)
  show ?thesis using r observation_length[OF r] by blast
qed

text \<open>
  Claim C9. In \<^verbatim>\<open>simulate_traffic\<close>, an active vehicle that is not completed and whose route
  is empty while the search finds no path, or whose route has exactly one waypoint, stays
  in the collection unchanged, and the score and the congestion penalty come out as without
  it. In every reached state a vehicle whose route has at most one waypoint has stuck
  duration 0, so it is not among the vehicles counted by the termination test.
\<close>

theorem idle_car_unchanged:
  "(cars s = pre @ c # post \<and> \<not> completed c \<and>
    ((car_path c = [] \<and>
      find_path (pq (car_position c) (car_destination c) (grid s))
        (car_position c) (car_destination c) (grid s) = Some [])
     \<or> length (car_path c) = 1) \<longrightarrow>
    (\<exists>s0 s' pre' post'.
       simulate_traffic pq (s\<lparr>cars := pre @ post\<rparr>) = Some s0 \<and>
       simulate_traffic pq s = Some s' \<and>
       cars s0 = pre' @ post' \<and> cars s' = pre' @ c # post' \<and>
       score s' = score s0 \<and> congestion_penalty s' = congestion_penalty s0)) \<and>
   (reachable pq s \<and> c \<in> set (cars s) \<and> length (car_path c) \<le> 1 \<longrightarrow>
      stuck_time c = 0 \<and> c \<notin> set (filter (\<lambda>c. stuck_time c > 20) (cars s)))"
proof (intro conjI impI)
  assume h: "cars s = pre @ c # post \<and> \<not> completed c \<and>
    ((car_path c = [] \<and>
      find_path (pq (car_position c) (car_destination c) (grid s))
        (car_position c) (car_destination c) (grid s) = Some [])
     \<or> length (car_path c) = 1)"
  have t: "traffic_car pq (grid s) c acc = Some (c, fst acc, snd acc + 0)" for acc
    using traffic_car_idle[of c pq "grid s" acc] h by simp
  from simulate_traffic_split[of s pre c post pq c 0, OF _ t] h
  show "\<exists>s0 s' pre' post'.
       simulate_traffic pq (s\<lparr>cars := pre @ post\<rparr>) = Some s0 \<and>
       simulate_traffic pq s = Some s' \<and>
       cars s0 = pre' @ post' \<and> cars s' = pre' @ c # post' \<and>
       score s' = score s0 \<and> congestion_penalty s' = congestion_penalty s0"
    by simp
next
  assume h: "reachable pq s \<and> c \<in> set (cars s) \<and> length (car_path c) \<le> 1"
  then have "env_inv s" using reachable_inv by blast
  then have "car_ok c" using h by (simp add: env_inv_def list_all_iff)
  then show "stuck_time c = 0" using h by (simp add: car_ok_def)
  then show "c \<notin> set (filter (\<lambda>c. stuck_time c > 20) (cars s))" by simp
qed

lemma busy_env_reachable: "reachable first_pq busy_env"
proof -
  have r: "reachable first_pq (new_env count_rng)" by (rule reach_new)
  have "ledger_ok (resources (new_env count_rng))" using env_inv_new by (simp add: env_inv_def)
  from reset_effect[OF this] obtain obs where
    "reset (new_env count_rng) = Some (obs, reset_state (new_env count_rng))" by blast
  from reach_reset[OF r this] show ?thesis unfolding busy_env_def by (rule reach_spawn)
qed

lemma busy_env_cars:
  "cars busy_env = [new_car (Position 0 1) (Position 6 7) RED, new_car (Position 2 3) (Position 8 9) BLUE]"
  by code_simp

lemma blocked_reset_buildings:
  "map kind_color (buildings (reset_state (new_env zero_rng))) = [(HOUSE, RED)]"
  by code_simp

text \<open>A vehicle on a route of one waypoint, and the first vehicle spawned after a reset.\<close>

theorem idle_car_unchanged_witness:
  "(\<exists>s0 s' pre' post'.
       simulate_traffic first_pq ((new_env zero_rng)\<lparr>cars := [] @ []\<rparr>) = Some s0 \<and>
       simulate_traffic first_pq ((new_env zero_rng)\<lparr>cars := [waiting_car [Position 0 0] 0]\<rparr>) = Some s' \<and>
       cars s0 = pre' @ post' \<and> cars s' = pre' @ waiting_car [Position 0 0] 0 # post' \<and>
       score s' = score s0 \<and> congestion_penalty s' = congestion_penalty s0) \<and>
   reachable first_pq busy_env \<and>
   new_car (Position 0 1) (Position 6 7) RED \<in> set (cars busy_env) \<and>
   length (car_path (new_car (Position 0 1) (Position 6 7) RED)) \<le> 1 \<and>
   stuck_time (new_car (Position 0 1) (Position 6 7) RED) = 0"
proof -
  let ?c = "waiting_car [Position 0 0] 0"
  let ?s = "(new_env zero_rng)\<lparr>cars := [?c]\<rparr>"
  have 1: "cars ?s = [] @ ?c # [] \<and> \<not> completed ?c \<and>
    ((car_path ?c = [] \<and>
      find_path (first_pq (car_position ?c) (car_destination ?c) (grid ?s))
        (car_position ?c) (car_destination ?c) (grid ?s) = Some [])
     \<or> length (car_path ?c) = 1)"
    by (simp add: waiting_car_def)
  let ?d = "new_car (Position 0 1) (Position 6 7) RED"
  have 2: "reachable first_pq busy_env \<and> ?d \<in> set (cars busy_env) \<and> length (car_path ?d) \<le> 1"
    using busy_env_reachable by (simp add: busy_env_cars) (simp add: new_car_def)
  show ?thesis
    using 1 2 idle_car_unchanged[of ?s "[]" ?c "[]" first_pq]
      idle_car_unchanged[of busy_env "[]" ?d "[]" first_pq]
    by simp
qed

text \<open>The registry after a reset, and through the episode\<close>

lemma finds_cell_iff:
  "finds_cell n g r \<longleftrightarrow>
     (\<exists>j<n. tile_at g (fst (attempt_cell r j)) (snd (attempt_cell r j)) = EMPTY)"
  unfolding finds_cell_def list_ex_iff by auto

lemma finds_cell_Suc:
  "finds_cell (Suc n) g r \<longleftrightarrow>
     tile_at g (fst (attempt_cell r 0)) (snd (attempt_cell r 0)) = EMPTY \<or>
     finds_cell n g (r\<lparr>drawn := Suc (Suc (drawn r))\<rparr>)"
proof -
  let ?P = "\<lambda>r j. tile_at g (fst (attempt_cell r j)) (snd (attempt_cell r j)) = EMPTY"
  have sh: "attempt_cell (r\<lparr>drawn := Suc (Suc (drawn r))\<rparr>) j = attempt_cell r (Suc j)" for j
    by (simp add: attempt_cell_def)
  have "(\<exists>j<Suc n. ?P r j) \<longleftrightarrow> ?P r 0 \<or> (\<exists>j<n. ?P r (Suc j))"
    by (metis less_Suc_eq_0_disj)
  then show ?thesis unfolding finds_cell_iff sh by simp
qed

lemma find_empty_attempts_found:
  "px (fst (find_empty_attempts n g r)) \<noteq> - 1 \<longleftrightarrow> finds_cell n g r"
proof (induction n arbitrary: r)
  case 0
  show ?case by (simp add: finds_cell_def)
next
  case (Suc n)
  let ?r2 = "r\<lparr>drawn := Suc (Suc (drawn r))\<rparr>"
  let ?x = "fst (attempt_cell r 0)" and ?y = "snd (attempt_cell r 0)"
  have dx: "position_dist_x r = (?x, r\<lparr>drawn := Suc (drawn r)\<rparr>)"
    by (simp add: position_dist_x_def attempt_cell_def)
  have dy: "position_dist_y (r\<lparr>drawn := Suc (drawn r)\<rparr>) = (?y, ?r2)"
    by (simp add: position_dist_y_def attempt_cell_def)
  have x0: "0 \<le> ?x" by (simp add: attempt_cell_def)
  show ?case
  proof (cases "tile_at g ?x ?y = EMPTY")
    case True
    then have "find_empty_attempts (Suc n) g r = (Position ?x ?y, ?r2)" by (simp add: dx dy)
    then show ?thesis using True x0 by (simp add: finds_cell_Suc)
  next
    case False
    then have "find_empty_attempts (Suc n) g r = find_empty_attempts n g ?r2" by (simp add: dx dy)
    then show ?thesis using False Suc[of ?r2] by (simp add: finds_cell_Suc)
  qed
qed

lemma spawn_building_kinds_exact:
  "map kind_color (buildings (spawn_building t col s)) =
     map kind_color (buildings s) @ (if finds_cell 100 (grid s) (rng s) then [(t, col)] else [])"
  using find_empty_attempts_found[of 100 "grid s" "rng s"]
  by (simp add: spawn_building_def find_empty_position_def Let_def case_prod_beta kind_color_def
      new_building_def)

lemma placed_fold:
  "map kind_color (buildings (fold (\<lambda>tc. spawn_building (fst tc) (snd tc)) xs s)) =
     map kind_color (buildings s) @ placed xs s"
  by (induction xs arbitrary: s) (simp_all add: spawn_building_kinds_exact)

lemma spawn_initial_buildings_fold:
  "spawn_initial_buildings s = fold (\<lambda>tc. spawn_building (fst tc) (snd tc)) initial_buildings s"
  by (simp add: spawn_initial_buildings_unfold initial_buildings_def)

lemma reset_state_cleared: "reset_state s = spawn_initial_buildings (cleared_state s)"
  by (simp add: reset_state_def cleared_state_def)

lemma reset_state_kinds:
  "map kind_color (buildings (reset_state s)) = placed initial_buildings (cleared_state s)"
  unfolding reset_state_cleared spawn_initial_buildings_fold placed_fold
  by (simp add: cleared_state_def)

lemma finds_cell_empty_grid: "finds_cell (Suc n) empty_grid r"
proof -
  have "fst (attempt_cell r 0) < 20" "snd (attempt_cell r 0) < 20" "0 \<le> fst (attempt_cell r 0)"
    "0 \<le> snd (attempt_cell r 0)"
    by (simp_all add: attempt_cell_def GRID_WIDTH_def GRID_HEIGHT_def)
  then have "tile_at empty_grid (fst (attempt_cell r 0)) (snd (attempt_cell r 0)) = EMPTY"
    by (simp add: tile_at_def empty_grid_def GRID_WIDTH_def GRID_HEIGHT_def)
  then show ?thesis by (simp add: finds_cell_Suc)
qed

lemma placed_first: "\<exists>rest. placed initial_buildings (cleared_state s) = (HOUSE, RED) # rest"
proof -
  have "finds_cell 100 (grid (cleared_state s)) (rng (cleared_state s))"
    using finds_cell_empty_grid[of 99] by (simp add: cleared_state_def)
  then show ?thesis by (simp add: initial_buildings_def)
qed

lemma length_placed: "length (placed xs s) \<le> length xs"
  by (induction xs arbitrary: s) (simp_all add: le_SucI)

lemma placed_all: "placed xs s = xs \<longleftrightarrow> all_found xs s"
proof (induction xs arbitrary: s)
  case Nil
  show ?case by simp
next
  case (Cons tc rest)
  let ?s' = "spawn_building (fst tc) (snd tc) s"
  show ?case
  proof (cases "finds_cell 100 (grid s) (rng s)")
    case True
    then show ?thesis using Cons[of ?s'] by simp
  next
    case False
    have "placed rest ?s' \<noteq> tc # rest"
      using length_placed[of rest ?s'] by (metis impossible_Cons)
    then show ?thesis using False by simp
  qed
qed

lemma episode_reachable: "episode pq r s \<Longrightarrow> reachable pq r \<Longrightarrow> reachable pq s"
proof (induction rule: episode.induct)
  case ep_start
  then show ?case by simp
next
  case (ep_step s a obs s')
  then show ?case using reach_step by blast
next
  case (ep_action s t x y b s')
  then show ?case using reach_action by blast
next
  case (ep_traffic s s')
  then show ?case using reach_traffic by blast
next
  case (ep_spawn s)
  then show ?case using reach_spawn by blast
qed

lemma step_kinds:
  assumes "env_inv s" "step pq s a = Some (obs, s')"
  shows "map kind_color (buildings s') = map kind_color (buildings s)"
proof (cases "game_over s \<or> length a \<noteq> 3")
  case True
  then show ?thesis using assms(2) step_halted[OF True, of pq] by auto
next
  case False
  then obtain s3 where s3: "simulate_traffic pq (after_action s a) = Some s3"
    "step pq s a = map_option (\<lambda>obs. (obs, close_step s3)) (get_observation (close_step s3))"
    using step_run[of s a pq] by auto
  then have e: "s' = close_step s3" using assms(2) by (cases "get_observation (close_step s3)") auto
  let ?s1 = "s\<lparr>current_step := current_step s + 1\<rparr>"
  have "action_inv ?s1" using assms(1) by (simp add: env_inv_def action_inv_def)
  from execute_action_inv[OF this, of "a ! 0" "a ! 1" "a ! 2"
      "fst (execute_action ?s1 (a ! 0) (a ! 1) (a ! 2))" "snd (execute_action ?s1 (a ! 0) (a ! 1) (a ! 2))"]
  have 1: "buildings (after_action s a) = buildings s" by (simp add: after_action_def)
  have 2: "buildings s3 = buildings (after_action s a)"
    using simulate_traffic_returns[of pq "after_action s a"] s3(1) by auto
  have 3: "map kind_color (buildings (close_step s3)) = map kind_color (buildings s3)"
    using spawn_cars_frame[of s3] by (simp add: close_step_def spawn_frame_def)
  show ?thesis unfolding e using 1 2 3 by simp
qed

lemma episode_kinds:
  "episode pq r s \<Longrightarrow> reachable pq r \<Longrightarrow> map kind_color (buildings s) = map kind_color (buildings r)"
proof (induction rule: episode.induct)
  case ep_start
  show ?case by simp
next
  case (ep_step s a obs s')
  have "env_inv s" using episode_reachable[OF ep_step(1) ep_step(4)] by (rule reachable_inv)
  from step_kinds[OF this ep_step(2)] show ?case using ep_step by simp
next
  case (ep_action s t x y b s')
  have "env_inv s" using episode_reachable[OF ep_action(1) ep_action(4)] by (rule reachable_inv)
  then have "action_inv s" by (simp add: env_inv_def action_inv_def)
  from execute_action_inv[OF this ep_action(2)] show ?case using ep_action by simp
next
  case (ep_traffic s s')
  have "buildings s' = buildings s" using simulate_traffic_returns[of pq s] ep_traffic(2) by auto
  then show ?case using ep_traffic by simp
next
  case (ep_spawn s)
  have "map kind_color (buildings (spawn_cars s)) = map kind_color (buildings s)"
    using spawn_cars_frame[of s] by (simp add: spawn_frame_def)
  then show ?case using ep_spawn by simp
qed

lemma busy_env_episode: "episode first_pq (reset_state (new_env count_rng)) busy_env"
  unfolding busy_env_def by (rule ep_spawn) (rule ep_start)

lemma zero_placed: "placed initial_buildings (cleared_state (new_env zero_rng)) = [(HOUSE, RED)]"
  by code_simp

text \<open>
  Claim C10, as amended. Through the episode that follows a reset, the registry lists, in
  this order, exactly those of house-red, house-blue, house-green, business-red,
  business-blue for which one of the 100 cells drawn for its placement was empty at that
  moment: the red house always, and all five exactly when no placement gave up. Every
  business is red or blue, a green house has spawned no vehicle, and every active vehicle
  is red or blue.
\<close>

theorem spawn_colours:
  assumes "reachable pq s0" and "reset s0 = Some (obs, r)" and "episode pq r s"
  shows "map kind_color (buildings s) = placed initial_buildings (cleared_state s0) \<and>
         (\<exists>rest. map kind_color (buildings s) = (HOUSE, RED) # rest) \<and>
         (map kind_color (buildings s) = initial_buildings \<longleftrightarrow>
            all_found initial_buildings (cleared_state s0)) \<and>
         (\<forall>b \<in> set (buildings s).
            (b_type b = BUSINESS \<longrightarrow> b_color b = RED \<or> b_color b = BLUE) \<and>
            (b_type b = HOUSE \<and> b_color b = GREEN \<longrightarrow> cars_spawned b = 0)) \<and>
         (\<forall>c \<in> set (cars s). car_color c = RED \<or> car_color c = BLUE)"
proof -
  have r: "r = reset_state s0" using assms(2) by (auto simp: reset_unfold)
  have rr: "reachable pq r" using reach_reset[OF assms(1,2)] .
  have k: "map kind_color (buildings s) = placed initial_buildings (cleared_state s0)"
    using episode_kinds[OF assms(3) rr] reset_state_kinds[of s0] r by simp
  have i: "env_inv s" using episode_reachable[OF assms(3) rr] by (rule reachable_inv)
  then have "\<forall>b \<in> set (buildings s). building_ok b" "\<forall>c \<in> set (cars s). car_ok c"
    by (simp_all add: env_inv_def list_all_iff)
  then show ?thesis using k placed_first[of s0] placed_all[of initial_buildings "cleared_state s0"]
    by (auto simp: building_ok_def car_ok_def)
qed

text \<open>After a reset that places all five buildings and one round of spawning.\<close>

theorem spawn_colours_witness:
  "reachable first_pq (new_env count_rng) \<and>
   (\<exists>obs. reset (new_env count_rng) = Some (obs, reset_state (new_env count_rng))) \<and>
   episode first_pq (reset_state (new_env count_rng)) busy_env \<and>
   all_found initial_buildings (cleared_state (new_env count_rng)) \<and>
   map kind_color (buildings busy_env) = initial_buildings \<and>
   map car_color (cars busy_env) = [RED, BLUE]"
proof -
  have r: "reachable first_pq (new_env count_rng)" by (rule reach_new)
  have "ledger_ok (resources (new_env count_rng))" using env_inv_new by (simp add: env_inv_def)
  from reset_effect[OF this] obtain obs where
    o: "reset (new_env count_rng) = Some (obs, reset_state (new_env count_rng))" by blast
  have a: "all_found initial_buildings (cleared_state (new_env count_rng))" by code_simp
  from spawn_colours[OF r o busy_env_episode] a
  have "map kind_color (buildings busy_env) = initial_buildings" by blast
  moreover have "map car_color (cars busy_env) = [RED, BLUE]"
    by (simp add: busy_env_cars new_car_def)
  ultimately show ?thesis using r o busy_env_episode a by blast
qed

text \<open>
  Claim C10 as stated fails when the draws keep hitting an occupied cell: with every draw 0
  the first house takes (0, 0), the four other placements give up after their 100 attempts,
  and the registry after \<^verbatim>\<open>reset\<close> holds a single red house.
\<close>

theorem blocked_placement_counterexample:
  "map_option (map kind_color \<circ> buildings \<circ> snd) (reset (new_env zero_rng)) = Some [(HOUSE, RED)] \<and>
   placed initial_buildings (cleared_state (new_env zero_rng)) = [(HOUSE, RED)]"
proof -
  have "ledger_ok (resources (new_env zero_rng))" using env_inv_new by (simp add: env_inv_def)
  from reset_effect[OF this] obtain obs where
    "reset (new_env zero_rng) = Some (obs, reset_state (new_env zero_rng))" by blast
  then show ?thesis by (simp add: blocked_reset_buildings zero_placed)
qed

end
